theory Spec2Isabelle
  imports Main
begin

section \<open>Strings as the plugin uses them\<close>

text \<open>
  Strings are lists of code units; the model covers the code units below 256.
  \<open>isSpace\<close> lists the white space that \<^verbatim>\<open>String.prototype.trim\<close> strips in that range:
  tab, line feed, vertical tab, form feed, carriage return, space and no-break space.
\<close>

definition isSpace :: "char \<Rightarrow> bool" where
  "isSpace c = (of_char c \<in> {9, 10, 11, 12, 13, 32, 160 :: nat})"

definition trim :: "string \<Rightarrow> string" where
  "trim s = rev (dropWhile isSpace (rev (dropWhile isSpace s)))"

text \<open>Template literals print a count in decimal.\<close>

definition digitChar :: "nat \<Rightarrow> char" where
  "digitChar d = char_of (48 + d)"

fun toStr :: "nat \<Rightarrow> string" where
  "toStr n = (if n < 10 then [digitChar n] else toStr (n div 10) @ [digitChar (n mod 10)])"

declare toStr.simps [simp del]

text \<open>
  \<^verbatim>\<open>new Date()\<close> as the plugin reads it: \<open>isoDate\<close> is
  \<^verbatim>\<open>toISOString().slice(0, 10)\<close> and \<open>hours\<close> is \<^verbatim>\<open>getHours()\<close>.
\<close>

record date =
  isoDate :: string
  hours :: nat

definition period :: "nat \<Rightarrow> string" where
  "period h =
     (if h \<ge> 4 \<and> h < 12 then ''Morning''
      else if h \<ge> 12 \<and> h < 20 then ''Afternoon''
      else ''Night'')"


definition toLowerChar :: "char \<Rightarrow> char" where
  "toLowerChar c =
     (let k = (of_char c :: nat)
      in if (65 \<le> k \<and> k \<le> 90) \<or> (192 \<le> k \<and> k \<le> 222 \<and> k \<noteq> 215)
         then char_of (k + 32) else c)"

definition toLowerCase :: "string \<Rightarrow> string" where
  "toLowerCase s = map toLowerChar s"

section \<open>The vault\<close>

text \<open>
  The host's vault is a table from paths to files and folders, in creation order.
  \<open>basename\<close> is \<^verbatim>\<open>path.split('/').pop()\<close>, which is also a file's \<^verbatim>\<open>name\<close>;
  \<open>extension\<close> is a file's \<^verbatim>\<open>extension\<close>, the text after the last dot of its name.
\<close>

datatype entry = TFile string | TFolder

type_synonym vault = "(string \<times> entry) list"

definition getAbstractFileByPath :: "vault \<Rightarrow> string \<Rightarrow> entry option" where
  "getAbstractFileByPath v p = map_of v p"

definition basename :: "string \<Rightarrow> string" where
  "basename p = rev (takeWhile (\<lambda>c. c \<noteq> CHR ''/'') (rev p))"

definition dirname :: "string \<Rightarrow> string" where
  "dirname p = rev (drop 1 (dropWhile (\<lambda>c. c \<noteq> CHR ''/'') (rev p)))"

definition extension :: "string \<Rightarrow> string" where
  "extension p =
     (let n = basename p
      in if CHR ''.'' \<in> set n then rev (takeWhile (\<lambda>c. c \<noteq> CHR ''.'') (rev n)) else [])"

definition create :: "vault \<Rightarrow> string \<Rightarrow> string \<Rightarrow> string + vault" where
  "create v p content =
     (if getAbstractFileByPath v p \<noteq> None then Inl ''File already exists.''
      else Inr (v @ [(p, TFile content)]))"

definition createFolder :: "vault \<Rightarrow> string \<Rightarrow> string + vault" where
  "createFolder v p =
     (if getAbstractFileByPath v p \<noteq> None then Inl ''Folder already exists.''
      else Inr (v @ [(p, TFolder)]))"

definition delete :: "vault \<Rightarrow> string \<Rightarrow> vault" where
  "delete v p = filter (\<lambda>(q, e). q \<noteq> p) v"

definition children :: "vault \<Rightarrow> string \<Rightarrow> vault" where
  "children v p = filter (\<lambda>(q, e). dirname q = p) v"

definition getFiles :: "vault \<Rightarrow> string list" where
  "getFiles v = concat (map (\<lambda>(q, e). case e of TFile c \<Rightarrow> [q] | TFolder \<Rightarrow> []) v)"

definition readBinary :: "vault \<Rightarrow> string \<Rightarrow> string option" where
  "readBinary v p = (case getAbstractFileByPath v p of Some (TFile c) \<Rightarrow> Some c | _ \<Rightarrow> None)"

section \<open>Settings and plugin state\<close>

datatype location = Inline | NewNote

record settings =
  model :: string
  apiKey :: string
  prompt :: string
  defaultNoteFolder :: string
  recordingFilePath :: string
  keepAudio :: bool
  includeAudioFileLink :: bool
  insertTranscriptLocation :: location
  templateFilePath :: string

definition DEFAULT_SETTINGS :: settings where
  "DEFAULT_SETTINGS =
     \<lparr> model = ''gemini-2.0-flash-lite'',
       apiKey = [],
       prompt = ''You will be provided an audio file. Your task is to compose a concise memo from this audio file in markdown (Obsidian). If you are provided a template, follow this template as precisely as possible. Otherwise, structure the memo in a way that makes sense. Do not be conversational, simply return the memo text. Write the text in the first person perspective.'' @ [CHR 0x0A],
       defaultNoteFolder = [],
       recordingFilePath = ''Captain's Log/recordings'',
       keepAudio = True,
       includeAudioFileLink = False,
       insertTranscriptLocation = NewNote,
       templateFilePath = [] \<rparr>"

text \<open>
  The active editor: the lines of the document and the cursor.
\<close>

record editor =
  lines :: "string list"
  cursorLine :: nat
  cursorCh :: nat

text \<open>
  The plugin object and the parts of the host it reads and writes: the in-memory
  \<open>settings\<close>, the settings last written by \<^verbatim>\<open>saveData\<close>, the vault, the editor of the
  active markdown view (if any), the parent folder path of the active file (if any),
  the notices shown and the notes opened in a new leaf.
\<close>

record plugin =
  settings :: settings
  saved :: "settings option"
  vault :: vault
  activeView :: "editor option"
  activeFileParent :: "string option"
  notices :: "string list"
  transcript :: string
  writing :: bool
  opened :: "string list"

definition notice :: "string \<Rightarrow> plugin \<Rightarrow> plugin" where
  "notice msg pl = pl\<lparr>notices := notices pl @ [msg]\<rparr>"

definition saveSettings :: "plugin \<Rightarrow> plugin" where
  "saveSettings pl = pl\<lparr>saved := Some (settings pl)\<rparr>"

text \<open>
  One run of the remote service and the clock, as the pipeline sees them. A call that
  throws is \<open>Inl\<close> of the error's message; \<open>Inr None\<close> is a response without the value
  the pipeline looks for. \<open>generate\<close> receives the model, the instruction text, the
  content type and the upload reference.
\<close>

record remote =
  uploadUrl :: "string + string option"
  fileUri :: "string + string option"
  generate :: "string \<Rightarrow> string \<Rightarrow> string \<Rightarrow> string \<Rightarrow> string + string option"
  clock :: date

record blob =
  parts :: "string list"
  btype :: string


section \<open>The transcription pipeline\<close>

text \<open>\<open>getMimeType\<close> reads the file's extension.\<close>

definition getMimeType :: "string \<Rightarrow> string" where
  "getMimeType file =
     (let ext = toLowerCase (extension file)
      in if ext = ''mp3'' then ''audio/mp3''
         else if ext = ''wav'' then ''audio/wav''
         else ''application/octet-stream'')"

definition loadTemplateContent :: "plugin \<Rightarrow> string" where
  "loadTemplateContent pl =
     (let path = templateFilePath (settings pl)
      in if path \<noteq> [] \<and> length (trim path) > 0
         then (case getAbstractFileByPath (vault pl) path of
                 Some (TFile content) \<Rightarrow> content
               | _ \<Rightarrow> [])
         else [])"

definition combinedPrompt :: "plugin \<Rightarrow> string" where
  "combinedPrompt pl =
     (let templateContent = loadTemplateContent pl
      in prompt (settings pl) @
         (if templateContent \<noteq> []
          then [CHR 0x0A, CHR 0x0A] @ ''Template:'' @ [CHR 0x0A] @ templateContent
          else []))"

text \<open>
  The uniqueness loops: \<open>count\<close> starts at 1 and is incremented while the tested path
  is taken. The loop need not end for an arbitrary test, so it is a partial function:
  \<open>None\<close> is a loop that never returns.
\<close>

partial_function (option) firstFree :: "(nat \<Rightarrow> bool) \<Rightarrow> nat \<Rightarrow> nat option" where
  "firstFree taken count = (if taken count then firstFree taken (count + 1) else Some count)"

declare firstFree.simps [code]

definition suffix :: "nat \<Rightarrow> string" where
  "suffix count = (if count \<le> 1 then [] else ''-'' @ toStr count)"

definition recordingName :: "date \<Rightarrow> nat \<Rightarrow> string" where
  "recordingName d count =
     ''recording-'' @ isoDate d @ ''-'' @ period (hours d) @ suffix count @ ''.mp3''"

definition noteTitle :: "date \<Rightarrow> nat \<Rightarrow> string" where
  "noteTitle d count = ''Captain's Log '' @ isoDate d @ ''-'' @ period (hours d) @ suffix count"

text \<open>
  The path a count is tested at, and the path the note is created at, in each of the
  three branches: a default folder is configured; none is and a file is active; neither.
  \<open>np\<close> is the host's \<^verbatim>\<open>normalizePath\<close>.
\<close>

definition testedNotePath :: "(string \<Rightarrow> string) \<Rightarrow> plugin \<Rightarrow> date \<Rightarrow> nat \<Rightarrow> string" where
  "testedNotePath np pl d count =
     (let defaultFolder = trim (defaultNoteFolder (settings pl))
      in if defaultFolder \<noteq> [] then np (defaultFolder @ ''/'' @ noteTitle d count @ ''.md'')
         else (case activeFileParent pl of
                 Some folderPath \<Rightarrow> folderPath @ ''/'' @ noteTitle d count @ ''.md''
               | None \<Rightarrow> noteTitle d count @ ''.md''))"

definition notePathOf :: "(string \<Rightarrow> string) \<Rightarrow> plugin \<Rightarrow> date \<Rightarrow> nat \<Rightarrow> string" where
  "notePathOf np pl d count =
     (let defaultFolder = trim (defaultNoteFolder (settings pl))
      in if defaultFolder \<noteq> [] then np (defaultFolder @ ''/'' @ noteTitle d count @ ''.md'')
         else (case activeFileParent pl of
                 Some folderPath \<Rightarrow> np (folderPath @ ''/'' @ noteTitle d count @ ''.md'')
               | None \<Rightarrow> noteTitle d count @ ''.md''))"

definition ensureDefaultFolder :: "plugin \<Rightarrow> plugin" where
  "ensureDefaultFolder pl =
     (let defaultFolder = trim (defaultNoteFolder (settings pl))
      in if defaultFolder \<noteq> [] \<and> getAbstractFileByPath (vault pl) defaultFolder = None
         then (case createFolder (vault pl) defaultFolder of
                 Inl err \<Rightarrow>
                   notice (''Failed to create folder: '' @ defaultFolder @ ''. Using vault root instead.'') pl
               | Inr v \<Rightarrow> pl\<lparr>vault := v\<rparr>)
         else pl)"

definition noteCount :: "(string \<Rightarrow> string) \<Rightarrow> plugin \<Rightarrow> date \<Rightarrow> nat option" where
  "noteCount np pl d =
     firstFree (\<lambda>count. getAbstractFileByPath (vault pl) (testedNotePath np pl d count) \<noteq> None) 1"

text \<open>
  New-note placement: the content, the title, the path, and the creation of the note,
  whose failure is caught and reported.
\<close>

definition transcriptContent :: "plugin \<Rightarrow> string \<Rightarrow> string" where
  "transcriptContent pl audioFile =
     (if includeAudioFileLink (settings pl)
      then ''![['' @ audioFile @ '']]'' @ [CHR 0x0A, CHR 0x0A] else []) @ transcript pl"

definition placeNewNote :: "(string \<Rightarrow> string) \<Rightarrow> date \<Rightarrow> string \<Rightarrow> plugin \<Rightarrow> plugin option" where
  "placeNewNote np d audioFile pl0 =
     (let pl = ensureDefaultFolder pl0
      in case noteCount np pl d of
           None \<Rightarrow> None
         | Some count \<Rightarrow>
             Some (case create (vault pl) (notePathOf np pl d count) (transcriptContent pl audioFile) of
                     Inl err \<Rightarrow> notice ''Failed to create new note for transcript.'' pl
                   | Inr v \<Rightarrow>
                       (notice (''Transcript generated in a new note: '' @ noteTitle d count @ ''.md'')
                          (pl\<lparr>vault := v\<rparr>))
                         \<lparr>opened := opened pl @ [notePathOf np pl d count]\<rparr>))"

text \<open>
  Inline placement. \<open>getNextNewLine\<close> scans for a blank line from \<open>ln\<close> on and appends
  one after the last line when it gets there; reading a line out of range is an error.
\<close>

function getNextNewLine :: "string list \<Rightarrow> nat \<Rightarrow> (string list \<times> nat) option" where
  "getNextNewLine ls newLine =
     (if newLine \<ge> length ls then None
      else if length (trim (ls ! newLine)) > 0
      then (if newLine = length ls - 1
            then getNextNewLine (ls @ [[]]) (newLine + 1)
            else getNextNewLine ls (newLine + 1))
      else Some (ls, newLine))"
  by pat_completeness auto


lemma trim_Nil: "trim [] = []"
  by (simp add: trim_def)

lemma nonblank_drop:
  assumes "n < length ls" and "length (trim (ls ! n)) > 0"
  shows "length (filter (\<lambda>l. length (trim l) > 0) (drop n ls))
       = Suc (length (filter (\<lambda>l. length (trim l) > 0) (drop (Suc n) ls)))"
proof -
  have "drop n ls = ls ! n # drop (Suc n) ls"
    using assms(1) by (simp only: Cons_nth_drop_Suc)
  then show ?thesis using assms(2) by simp
qed

termination getNextNewLine
proof (relation "measure (\<lambda>(ls, n). length (filter (\<lambda>l. length (trim l) > 0) (drop n ls)))",
    goal_cases)
  case 1
  show ?case by simp
next
  case (2 ls n)
  from 2 have lt: "n < length ls" and nb: "length (trim (ls ! n)) > 0" by simp_all
  have a: "drop (n + 1) (ls @ [[]]) = [[]]" using 2 lt by simp
  show ?case unfolding in_measure prod.case a nonblank_drop [OF lt nb] by (simp add: trim_Nil)
next
  case (3 ls n)
  from 3 have lt: "n < length ls" and nb: "length (trim (ls ! n)) > 0" by simp_all
  show ?case unfolding in_measure prod.case nonblank_drop [OF lt nb] by simp
qed

declare getNextNewLine.simps [simp del]

fun splitLines :: "string \<Rightarrow> string list" where
  "splitLines [] = [[]]"
| "splitLines (c # cs) =
     (if c = CHR 0x0A then [] # splitLines cs
      else (case splitLines cs of l # ls \<Rightarrow> (c # l) # ls | [] \<Rightarrow> [[c]]))"

text \<open>
  \<open>replaceRange text ln ch\<close> inserts \<open>text\<close> at line \<open>ln\<close>, column \<open>ch\<close>; the editor clips a
  position beyond the document to its end.
\<close>

definition replaceRange :: "string \<Rightarrow> nat \<Rightarrow> nat \<Rightarrow> string list \<Rightarrow> string list" where
  "replaceRange text ln ch ls =
     (if ls = [] then splitLines text
      else if ln < length ls
      then take ln ls @ splitLines (take ch (ls ! ln) @ text @ drop ch (ls ! ln)) @ drop (ln + 1) ls
      else butlast ls @ splitLines (last ls @ text))"

definition placeInline :: "plugin \<Rightarrow> (string \<times> plugin) + plugin" where
  "placeInline pl =
     (case activeView pl of
        None \<Rightarrow> Inl (''Cannot read properties of null (reading 'editor')'', pl)
      | Some ed \<Rightarrow>
          (case getNextNewLine (lines ed) (cursorLine ed) of
             None \<Rightarrow> Inl (''Invalid line number'', pl)
           | Some (ls, LnToWrite) \<Rightarrow>
               Inr (notice ''Transcript generated and inserted inline.''
                      (pl\<lparr>activeView :=
                            Some (ed\<lparr>lines := replaceRange (transcript pl) LnToWrite 0 ls\<rparr>)\<rparr>))))"

text \<open>
  Steps 1 and 2: the upload. An absent or empty upload URL or file URI is an error.
\<close>

definition upload :: "remote \<Rightarrow> string + string" where
  "upload r =
     (case uploadUrl r of
        Inl e \<Rightarrow> Inl e
      | Inr None \<Rightarrow> Inl ''Failed to retrieve upload URL''
      | Inr (Some []) \<Rightarrow> Inl ''Failed to retrieve upload URL''
      | Inr (Some (u # us)) \<Rightarrow>
          (case fileUri r of
             Inl e \<Rightarrow> Inl e
           | Inr None \<Rightarrow> Inl ''File URI not returned from upload''
           | Inr (Some []) \<Rightarrow> Inl ''File URI not returned from upload''
           | Inr (Some (f # fs)) \<Rightarrow> Inr (f # fs)))"

text \<open>
  The body of the \<^verbatim>\<open>try\<close> block of \<open>transcribeRecording\<close>. \<open>Inl (e, pl)\<close> is an error with
  message \<open>e\<close> thrown in state \<open>pl\<close>; \<open>None\<close> is a title loop that never returns.
\<close>

definition pipeline ::
  "(string \<Rightarrow> string) \<Rightarrow> remote \<Rightarrow> string \<Rightarrow> plugin \<Rightarrow> ((string \<times> plugin) + plugin) option" where
  "pipeline np r audioFile pl =
     (case upload r of
        Inl e \<Rightarrow> Some (Inl (e, pl))
      | Inr uri \<Rightarrow>
          (let pl1 = notice ''Audio uploaded. Generating transcript...'' pl
           in case generate r (model (settings pl1)) (combinedPrompt pl1) (getMimeType audioFile) uri of
                Inl e \<Rightarrow> Some (Inl (e, pl1))
              | Inr None \<Rightarrow> Some (Inl (''No text returned from AI model.'', pl1))
              | Inr (Some []) \<Rightarrow> Some (Inl (''No text returned from AI model.'', pl1))
              | Inr (Some (t # ts)) \<Rightarrow>
                  (let pl2 = pl1\<lparr>transcript := t # ts\<rparr>
                   in case insertTranscriptLocation (settings pl2) of
                        Inline \<Rightarrow> Some (placeInline pl2)
                      | NewNote \<Rightarrow> map_option Inr (placeNewNote np (clock r) audioFile pl2))))"

text \<open>
  \<open>transcribeRecording\<close>: the fallback to a new note, the read of the audio file (outside
  the \<^verbatim>\<open>try\<close> block, so its failure escapes), and the \<^verbatim>\<open>try\<close> block, whose errors
  are caught and shown as a notice.
\<close>

definition fallback :: "plugin \<Rightarrow> plugin" where
  "fallback pl =
     (if insertTranscriptLocation (settings pl) = Inline \<and> activeView pl = None
      then (notice ''No active file open. Defaulting to generating the transcript in a new note.'' pl)
             \<lparr>settings := (settings pl)\<lparr>insertTranscriptLocation := NewNote\<rparr>\<rparr>
      else pl)"

definition transcribeRecording ::
  "(string \<Rightarrow> string) \<Rightarrow> remote \<Rightarrow> string \<Rightarrow> plugin \<Rightarrow> ((string \<times> plugin) + plugin) option" where
  "transcribeRecording np r audioFile pl0 =
     (let pl = notice ''Processing audio for transcription...'' (fallback pl0)
      in case readBinary (vault pl) audioFile of
           None \<Rightarrow> Some (Inl (''ENOENT: no such file or directory'', pl))
         | Some bytes \<Rightarrow>
             (case pipeline np r audioFile pl of
                None \<Rightarrow> None
              | Some (Inl (e, pl')) \<Rightarrow> Some (Inr (notice e pl'))
              | Some (Inr pl') \<Rightarrow> Some (Inr pl')))"


section \<open>Handling a finished recording\<close>

text \<open>
  Modelled from the spec: \<^verbatim>\<open>saveFile\<close> (imported from \<^verbatim>\<open>./Utils\<close>) is not among the
  sources. The spec says the captured audio is handed to persistence and stored as a
  file in the recording folder; the model stores the blob's bytes under the given file
  name in that folder (the vault root when the folder setting is blank), creates the
  folder when it is missing, and returns the path of the new file.
\<close>

definition saveFile ::
  "(string \<Rightarrow> string) \<Rightarrow> vault \<Rightarrow> blob \<Rightarrow> string \<Rightarrow> string \<Rightarrow> string + (vault \<times> string)" where
  "saveFile np v audioFile fileName path =
     (let folder = trim path;
          filePath = (if folder = [] then fileName else np (folder @ ''/'' @ fileName));
          v1 = (if folder \<noteq> [] \<and> getAbstractFileByPath v (np folder) = None
                then v @ [(np folder, TFolder)] else v)
      in case create v1 filePath (concat (parts audioFile)) of
           Inl e \<Rightarrow> Inl e
         | Inr v2 \<Rightarrow> Inr (v2, filePath))"

definition testedRecordingPath :: "(string \<Rightarrow> string) \<Rightarrow> plugin \<Rightarrow> date \<Rightarrow> nat \<Rightarrow> string" where
  "testedRecordingPath np pl d count =
     (let recordingFolder = trim (recordingFilePath (settings pl))
      in if recordingFolder \<noteq> [] then np (recordingFolder @ ''/'' @ recordingName d count)
         else recordingName d count)"

definition recordingCount :: "(string \<Rightarrow> string) \<Rightarrow> plugin \<Rightarrow> date \<Rightarrow> nat option" where
  "recordingCount np pl d =
     firstFree (\<lambda>count. getAbstractFileByPath (vault pl) (testedRecordingPath np pl d count) \<noteq> None) 1"

definition insertLink :: "string \<Rightarrow> plugin \<Rightarrow> plugin" where
  "insertLink file pl =
     (case activeView pl of
        Some ed \<Rightarrow>
          pl\<lparr>activeView :=
               Some (ed\<lparr>lines := replaceRange (''![['' @ file @ '']]'') (cursorLine ed) (cursorCh ed)
                                   (lines ed)\<rparr>)\<rparr>
      | None \<Rightarrow> notice ''No active editor found. Audio file link not inserted.'' pl)"

text \<open>
  The cleanup after \<open>transcribeRecording\<close> has returned: the audio file is deleted, and
  the recording folder too when it has no children left. Reading the children of a
  file is an error.
\<close>

definition cleanup :: "string \<Rightarrow> plugin \<Rightarrow> string + plugin" where
  "cleanup file pl =
     (let pl1 = pl\<lparr>vault := delete (vault pl) file\<rparr>;
          folderPath = recordingFilePath (settings pl1)
      in case getAbstractFileByPath (vault pl1) folderPath of
           None \<Rightarrow> Inr pl1
         | Some (TFile c) \<Rightarrow> Inl ''Cannot read properties of undefined (reading 'length')''
         | Some TFolder \<Rightarrow>
             (if length (children (vault pl1) folderPath) = 0
              then Inr (pl1\<lparr>vault := delete (vault pl1) folderPath\<rparr>)
              else Inr pl1))"

text \<open>
  \<open>handleAudioRecording\<close>. \<open>d\<close> is the date read at its start. Every error is caught at
  the end and reported with one fixed notice; \<open>None\<close> is a uniqueness loop that never
  returns.
\<close>

definition failed :: "plugin \<Rightarrow> plugin" where
  "failed pl = notice ''Failed to handle audio recording'' pl"

definition handleAudioRecording ::
  "(string \<Rightarrow> string) \<Rightarrow> remote \<Rightarrow> date \<Rightarrow> blob option \<Rightarrow> bool \<Rightarrow> bool \<Rightarrow> bool \<Rightarrow> plugin
     \<Rightarrow> plugin option" where
  "handleAudioRecording np r d audioFile transcribe keepAudio' includeAudioFileLink' pl =
     (case audioFile of
        None \<Rightarrow> Some pl
      | Some b \<Rightarrow>
          (case recordingCount np pl d of
             None \<Rightarrow> None
           | Some count \<Rightarrow>
               (case saveFile np (vault pl) b (recordingName d count) (recordingFilePath (settings pl)) of
                  Inl e \<Rightarrow> Some (failed pl)
                | Inr (v, file) \<Rightarrow>
                    (let pl1 = saveSettings
                                 (pl\<lparr>vault := v,
                                     settings := (settings pl)\<lparr>keepAudio := keepAudio',
                                                   includeAudioFileLink := includeAudioFileLink'\<rparr>\<rparr>);
                         pl2 = (if includeAudioFileLink' \<and> keepAudio'
                                   \<and> insertTranscriptLocation (settings pl1) \<noteq> NewNote
                                then insertLink file pl1 else pl1)
                     in if transcribe
                        then (case transcribeRecording np r file pl2 of
                                None \<Rightarrow> None
                              | Some (Inl (e, pl3)) \<Rightarrow> Some (failed pl3)
                              | Some (Inr pl3) \<Rightarrow>
                                  (if \<not> keepAudio'
                                   then (case cleanup file pl3 of
                                           Inl e \<Rightarrow> Some (failed (pl3\<lparr>vault := delete (vault pl3) file\<rparr>))
                                         | Inr pl4 \<Rightarrow> Some pl4)
                                   else Some pl3))
                        else Some pl2))))"


section \<open>The recording modal\<close>

text \<open>
  The platform's recorder, as far as the modal depends on it: its \<^verbatim>\<open>state\<close>, the number
  of listeners registered for its \<^verbatim>\<open>stop\<close> event, and whether \<^verbatim>\<open>stop()\<close> has been
  called and the \<^verbatim>\<open>stop\<close> event is still to be fired. A recorder is named by its
  index in the list of recorders created so far.
\<close>

datatype rstate = Inactive | Recording | Paused

record device =
  dstate :: rstate
  stopListeners :: nat
  stopPending :: bool

text \<open>
  A promise is pending, resolved with an artifact or \<^verbatim>\<open>null\<close>, or rejected. The promise
  returned by \<open>stopRecording\<close> is awaited by a button's click handler, which then calls
  the \<open>handleAudioRecording\<close> callback with the value and with the button's
  \<open>transcribe\<close> flag; \<open>awaiter\<close> is that flag (\<open>None\<close> for the promise of \<open>open\<close>).
\<close>

datatype pstate = Pending | Resolved "blob option" | Rejected string

record promise =
  pstate :: pstate
  awaiter :: "bool option"

record modal =
  mediaRecorder :: "nat option"
  chunks :: "string list"
  resolve :: "nat option"
  isRecording :: bool
  timer :: string
  intervalId :: "nat option"
  startTime :: int
  elapsedTime :: int
  isResetting :: bool
  closed :: bool
  devices :: "device list"
  promises :: "promise list"
  pendingMedia :: nat
  handles :: nat
  handled :: "(blob option \<times> bool) list"

text \<open>
  Settling a promise: only a pending promise changes, and the handler awaiting a
  resolved promise runs. \<open>resolve\<close> holds the promise whose \<^verbatim>\<open>resolve\<close> and
  \<^verbatim>\<open>reject\<close> functions the modal has stored.
\<close>

definition settle :: "nat \<Rightarrow> pstate \<Rightarrow> modal \<Rightarrow> modal" where
  "settle p v s =
     (if p < length (promises s) \<and> pstate (promises s ! p) = Pending
      then s\<lparr>promises := (promises s)[p := (promises s ! p)\<lparr>pstate := v\<rparr>],
             handled := handled s @
               (case (v, awaiter (promises s ! p)) of
                  (Resolved a, Some transcribe) \<Rightarrow> [(a, transcribe)]
                | _ \<Rightarrow> [])\<rparr>
      else s)"

definition toStrInt :: "int \<Rightarrow> string" where
  "toStrInt i = (if i < 0 then ''-'' @ toStr (nat (- i)) else toStr (nat i))"

definition padStart2 :: "string \<Rightarrow> string" where
  "padStart2 s = replicate (2 - length s) (CHR ''0'') @ s"

definition padNumber :: "int \<Rightarrow> string" where
  "padNumber num = padStart2 (toStrInt num)"

text \<open>The remainder operator \<^verbatim>\<open>%\<close> takes the sign of the dividend.\<close>

definition jsRem :: "int \<Rightarrow> int \<Rightarrow> int" where
  "jsRem a b = a - b * (sgn a * (\<bar>a\<bar> div \<bar>b\<bar>)) * sgn b"

definition stopTimer :: "modal \<Rightarrow> modal" where
  "stopTimer s = (if intervalId s \<noteq> None then s\<lparr>intervalId := None\<rparr> else s)"

definition startTimer :: "modal \<Rightarrow> modal" where
  "startTimer s =
     (let s1 = stopTimer s
      in s1\<lparr>intervalId := Some (handles s1 + 1), handles := handles s1 + 1\<rparr>)"

text \<open>The interval's callback, run at time \<open>now\<close>.\<close>

definition elapsedTimeInSeconds :: "int \<Rightarrow> modal \<Rightarrow> int" where
  "elapsedTimeInSeconds now s = elapsedTime s div 1000 + (now - startTime s) div 1000"

definition tick :: "int \<Rightarrow> modal \<Rightarrow> modal" where
  "tick now s =
     (let minutes = elapsedTimeInSeconds now s div 60;
          seconds = jsRem (elapsedTimeInSeconds now s) 60
      in s\<lparr>timer := padNumber minutes @ '':'' @ padNumber seconds\<rparr>)"

text \<open>
  \<open>startRecording\<close> asks for the microphone; \<open>gotMedia\<close> is its \<^verbatim>\<open>then\<close> callback and
  \<open>mediaFailed\<close> its \<^verbatim>\<open>catch\<close> callback.
\<close>

definition startRecording :: "modal \<Rightarrow> modal" where
  "startRecording s = s\<lparr>pendingMedia := pendingMedia s + 1\<rparr>"

definition gotMedia :: "int \<Rightarrow> modal \<Rightarrow> modal" where
  "gotMedia now s =
     startTimer
       (s\<lparr>mediaRecorder := Some (length (devices s)),
          devices := devices s @ [\<lparr>dstate = Recording, stopListeners = 1, stopPending = False\<rparr>],
          startTime := now\<rparr>)"

definition mediaFailed :: "string \<Rightarrow> modal \<Rightarrow> modal" where
  "mediaFailed e s = (case resolve s of None \<Rightarrow> s | Some p \<Rightarrow> settle p (Rejected e) s)"

definition onDataAvailable :: "string \<Rightarrow> modal \<Rightarrow> modal" where
  "onDataAvailable data s = (if isResetting s then s else s\<lparr>chunks := chunks s @ [data]\<rparr>)"

definition onStop :: "modal \<Rightarrow> modal" where
  "onStop s =
     (if isResetting s then s\<lparr>isResetting := False\<rparr>
      else (let blob = \<lparr>parts = chunks s, btype = ''audio/wav''\<rparr>
            in case resolve s of
                 Some p \<Rightarrow> (settle p (Resolved (Some blob)) s)\<lparr>closed := True\<rparr>
               | None \<Rightarrow> s))"

text \<open>
  The recorder's own methods. Calling \<^verbatim>\<open>stop()\<close> makes the recorder inactive and its
  \<^verbatim>\<open>stop\<close> event pending; on a recorder that is already inactive it does nothing.
\<close>

definition setDevice :: "nat \<Rightarrow> (device \<Rightarrow> device) \<Rightarrow> modal \<Rightarrow> modal" where
  "setDevice d f s = s\<lparr>devices := (devices s)[d := f (devices s ! d)]\<rparr>"

definition stopDevice :: "nat \<Rightarrow> modal \<Rightarrow> modal" where
  "stopDevice d s =
     (if d < length (devices s) \<and> dstate (devices s ! d) \<noteq> Inactive
      then setDevice d (\<lambda>m. m\<lparr>dstate := Inactive, stopPending := True\<rparr>) s
      else s)"

definition stateOf :: "modal \<Rightarrow> nat \<Rightarrow> rstate" where
  "stateOf s d = (if d < length (devices s) then dstate (devices s ! d) else Inactive)"

definition pauseRecording :: "int \<Rightarrow> modal \<Rightarrow> modal" where
  "pauseRecording now s =
     (case mediaRecorder s of
        None \<Rightarrow> s
      | Some d \<Rightarrow>
          (if stateOf s d = Recording
           then (let s1 = stopTimer (setDevice d (\<lambda>m. m\<lparr>dstate := Paused\<rparr>) s)
                 in s1\<lparr>elapsedTime := elapsedTime s1 + (now - startTime s1)\<rparr>)
           else s))"

definition resumeOrStartRecording :: "int \<Rightarrow> modal \<Rightarrow> modal" where
  "resumeOrStartRecording now s =
     (let s1 = (case mediaRecorder s of
                  None \<Rightarrow> startRecording s
                | Some d \<Rightarrow>
                    (if stateOf s d = Paused
                     then setDevice d (\<lambda>m. m\<lparr>dstate := Recording\<rparr>) s
                     else startRecording s))
      in startTimer (s1\<lparr>startTime := now\<rparr>))"

definition hardReset :: "modal \<Rightarrow> modal" where
  "hardReset s =
     (let s1 = (case mediaRecorder s of
                  None \<Rightarrow> s
                | Some d \<Rightarrow> (stopDevice d s)\<lparr>mediaRecorder := None\<rparr>);
          s2 = stopTimer (s1\<lparr>isResetting := True, chunks := [], elapsedTime := 0\<rparr>)
      in s2\<lparr>timer := ''00:00''\<rparr>)"

definition stopRecording :: "bool \<Rightarrow> modal \<Rightarrow> modal" where
  "stopRecording transcribe s =
     (let p = length (promises s);
          s1 = s\<lparr>promises := promises s @ [\<lparr>pstate = Pending, awaiter = Some transcribe\<rparr>],
                 resolve := Some p\<rparr>
      in case mediaRecorder s1 of
           Some d \<Rightarrow>
             stopTimer
               (stopDevice d (setDevice d (\<lambda>m. m\<lparr>stopListeners := stopListeners m + 1\<rparr>) s1))
         | None \<Rightarrow> settle p (Resolved None) s1)"


text \<open>
  What can happen to an open modal: the microphone request settles, a recorder fires
  \<^verbatim>\<open>dataavailable\<close> or \<^verbatim>\<open>stop\<close>, a button is clicked (play/pause, restart, and stop
  or transcribe, told apart by the flag), or the interval fires. Clicks and timer
  callbacks carry the value of \<^verbatim>\<open>Date.now()\<close>. An event that the platform cannot
  produce in the current state (an answer to no request, an event of a recorder that
  is inactive with no \<^verbatim>\<open>stop\<close> event pending, a click on a closed modal, a cleared
  interval) changes nothing. A \<^verbatim>\<open>stop\<close> event runs \<open>onStop\<close> once for each registered
  listener.
\<close>

datatype event =
    GotMedia int
  | MediaFailed string
  | DataAvailable nat string
  | Stopped nat
  | PlayPause int
  | Restart
  | Stop bool
  | Tick int

definition step :: "event \<Rightarrow> modal \<Rightarrow> modal" where
  "step e s =
     (case e of
        GotMedia now \<Rightarrow>
          (if pendingMedia s > 0 then gotMedia now (s\<lparr>pendingMedia := pendingMedia s - 1\<rparr>) else s)
      | MediaFailed err \<Rightarrow>
          (if pendingMedia s > 0 then mediaFailed err (s\<lparr>pendingMedia := pendingMedia s - 1\<rparr>) else s)
      | DataAvailable d data \<Rightarrow>
          (if d < length (devices s) \<and> (stopPending (devices s ! d) \<or> dstate (devices s ! d) \<noteq> Inactive)
           then onDataAvailable data s else s)
      | Stopped d \<Rightarrow>
          (if d < length (devices s) \<and> stopPending (devices s ! d)
           then (onStop ^^ stopListeners (devices s ! d))
                  (setDevice d (\<lambda>m. m\<lparr>stopPending := False\<rparr>) s)
           else s)
      | PlayPause now \<Rightarrow>
          (if closed s then s
           else (if isRecording s then pauseRecording now s else resumeOrStartRecording now s)
                  \<lparr>isRecording := \<not> isRecording s\<rparr>)
      | Restart \<Rightarrow> (if closed s then s else (hardReset s)\<lparr>isRecording := False\<rparr>)
      | Stop transcribe \<Rightarrow> (if closed s then s else stopRecording transcribe s)
      | Tick now \<Rightarrow> (if intervalId s \<noteq> None then tick now s else s))"

fun run :: "event list \<Rightarrow> modal \<Rightarrow> modal" where
  "run [] s = s"
| "run (e # es) s = run es (step e s)"

text \<open>
  The modal right after \<^verbatim>\<open>open()\<close>: \<open>onOpen\<close> has asked for the microphone and set
  \<open>isRecording\<close>, and \<open>open\<close> has stored the functions of the promise it returns.
\<close>

definition openModal :: modal where
  "openModal =
     \<lparr> mediaRecorder = None, chunks = [], resolve = Some 0, isRecording = True,
       timer = ''00:00'', intervalId = None, startTime = 0, elapsedTime = 0,
       isResetting = False, closed = False, devices = [],
       promises = [\<lparr>pstate = Pending, awaiter = None\<rparr>],
       pendingMedia = 1, handles = 0, handled = [] \<rparr>"

section \<open>Finding the audio link\<close>

text \<open>
  The two patterns of \<open>commandGenerateTranscript\<close> share their body: one or more
  characters other than brackets, taken greedily, then \<^verbatim>\<open>.mp3\<close> or \<^verbatim>\<open>.wav\<close>, then a
  lookahead. \<open>tryLen ahead rest k\<close> backtracks from \<open>k\<close> characters down to one and
  returns the length of the match.
\<close>

definition nonBracket :: "char \<Rightarrow> bool" where
  "nonBracket c = (c \<noteq> CHR ''['' \<and> c \<noteq> CHR '']'')"

definition audioExt :: "string \<Rightarrow> bool" where
  "audioExt s = (s = ''.mp3'' \<or> s = ''.wav'')"

fun tryLen :: "string \<Rightarrow> string \<Rightarrow> nat \<Rightarrow> nat option" where
  "tryLen ahead rest 0 = None"
| "tryLen ahead rest (Suc k) =
     (if audioExt (take 4 (drop (Suc k) rest))
         \<and> take (length ahead) (drop (Suc k + 4) rest) = ahead
      then Some (Suc k + 4)
      else tryLen ahead rest k)"

definition matchAt :: "string \<Rightarrow> string \<Rightarrow> nat option" where
  "matchAt ahead rest = tryLen ahead rest (length (takeWhile nonBracket rest))"

text \<open>
  The lookbehinds read the text before the match, here given nearest character first:
  \<^verbatim>\<open>[[\<close> for the wiki pattern; for the markdown pattern \<^verbatim>\<open>](\<close>, and before it an
  opening bracket with no line terminator in between.
\<close>

definition wikiBehind :: "string \<Rightarrow> bool" where
  "wikiBehind pre = (take 2 pre = ''[['')"

definition lineTerminator :: "char \<Rightarrow> bool" where
  "lineTerminator c = (c = CHR 0x0A \<or> c = CHR 0x0D)"

definition markdownBehind :: "string \<Rightarrow> bool" where
  "markdownBehind pre =
     (take 2 pre = ''(]''
      \<and> CHR ''['' \<in> set (takeWhile (\<lambda>c. \<not> lineTerminator c) (drop 2 pre)))"

lemma tryLen_pos: "tryLen ahead rest k = Some n \<Longrightarrow> 0 < n"
  by (induction k) (auto split: if_splits)

text \<open>
  All results of repeated \<^verbatim>\<open>exec\<close> with the global flag, each with the index it
  starts at: the search resumes where the last match ended.
\<close>

function execAll :: "(string \<Rightarrow> bool) \<Rightarrow> string \<Rightarrow> string \<Rightarrow> string \<Rightarrow> (nat \<times> string) list" where
  "execAll behind ahead pre [] = []"
| "execAll behind ahead pre (c # cs) =
     (if behind pre
      then (case matchAt ahead (c # cs) of
              Some n \<Rightarrow>
                (length pre, take n (c # cs))
                  # execAll behind ahead (rev (take n (c # cs)) @ pre) (drop n (c # cs))
            | None \<Rightarrow> execAll behind ahead (c # pre) cs)
      else execAll behind ahead (c # pre) cs)"
  by pat_completeness auto
termination
  by (relation "measure (\<lambda>(behind, ahead, pre, rest). length rest)")
     (auto simp: matchAt_def dest: tryLen_pos)

definition wikiLinks :: "string \<Rightarrow> (nat \<times> string) list" where
  "wikiLinks text = execAll wikiBehind '']]'' [] text"

definition markdownLinks :: "string \<Rightarrow> (nat \<times> string) list" where
  "markdownLinks text = execAll markdownBehind '')'' [] text"

text \<open>The list of patterns built by \<open>commandGenerateTranscript\<close>, each as its results on a text.\<close>

definition regex :: "(string \<Rightarrow> string list) list" where
  "regex = [\<lambda>text. map snd (wikiLinks text), \<lambda>text. map snd (markdownLinks text)]"

text \<open>
  \<open>findFilePath\<close>: every result of every pattern, in the order of the loops, is decoded,
  normalised, trimmed and assigned to \<open>filename\<close>. \<open>decodeURI\<close> is the platform's function
  (\<open>None\<close> when it throws) and \<open>np\<close> the host's \<^verbatim>\<open>normalizePath\<close>.
\<close>

fun assignAll :: "(string \<Rightarrow> string option) \<Rightarrow> (string \<Rightarrow> string) \<Rightarrow> string \<Rightarrow> string list \<Rightarrow> string option" where
  "assignAll decodeURI np filename [] = Some filename"
| "assignAll decodeURI np filename (result # results) =
     (case decodeURI result of
        None \<Rightarrow> None
      | Some decoded \<Rightarrow> assignAll decodeURI np (trim (np decoded)) results)"

text \<open>
  The lookup of the last \<open>filename\<close> in the vault: an empty name is an error; a path
  that exists is returned as it is; failing that, the first file of the vault with
  the same name.
\<close>

definition resolvePath :: "vault \<Rightarrow> string \<Rightarrow> string + string" where
  "resolvePath v filename =
     (if filename = [] then Inl ''No file found in the text.''
      else if getAbstractFileByPath v filename \<noteq> None then Inr filename
      else (case find (\<lambda>file. basename file = basename filename) (getFiles v) of
              Some foundFile \<Rightarrow> Inr foundFile
            | None \<Rightarrow> Inl ''File not found''))"

definition findFilePath ::
  "(string \<Rightarrow> string option) \<Rightarrow> (string \<Rightarrow> string) \<Rightarrow> vault \<Rightarrow> string
     \<Rightarrow> (string \<Rightarrow> string list) list \<Rightarrow> string + string" where
  "findFilePath decodeURI np v text regs =
     (case assignAll decodeURI np [] (concat (map (\<lambda>reg. reg text) regs)) of
        None \<Rightarrow> Inl ''URI malformed''
      | Some filename \<Rightarrow> resolvePath v filename)"

section \<open>Notions used in the statements\<close>

text \<open>The value of a decimal digit, to read back what \<open>toStr\<close> prints.\<close>

definition digitVal :: "char \<Rightarrow> nat" where
  "digitVal c = of_char c - 48"

text \<open>The state a pipeline run ends in, whether it returned or threw.\<close>

definition finalState :: "(string \<times> plugin) + plugin \<Rightarrow> plugin" where
  "finalState res = (case res of Inl (e, pl) \<Rightarrow> pl | Inr pl \<Rightarrow> pl)"

text \<open>
  The reference that the spec has the resolver return, in its words: of the results of
  both patterns, the one that starts last in the text.
\<close>

fun latest :: "(nat \<times> string) list \<Rightarrow> (nat \<times> string) option" where
  "latest [] = None"
| "latest (m # ms) =
     (case latest ms of None \<Rightarrow> Some m | Some b \<Rightarrow> if fst m < fst b then Some b else Some m)"

definition closestReference :: "string \<Rightarrow> string option" where
  "closestReference text = map_option snd (latest (wikiLinks text @ markdownLinks text))"

text \<open>
  The seconds that the spec has the ticker show, in its words: the floor of the
  accumulated time plus the running interval.
\<close>

definition claimedSeconds :: "int \<Rightarrow> modal \<Rightarrow> int" where
  "claimedSeconds now s = (elapsedTime s + (now - startTime s)) div 1000"

text \<open>
  A session of pause/resume cycles: \<open>(p, r)\<close> is a click on pause at time \<open>p\<close> and the
  click on resume at time \<open>r\<close> that follows. \<open>recordedMillis\<close> is the sum of the
  completed recording intervals and \<open>lastStart\<close> the start of the running one.
\<close>

fun pauseResume :: "(int \<times> int) list \<Rightarrow> event list" where
  "pauseResume [] = []"
| "pauseResume ((p, r) # cs) = PlayPause p # PlayPause r # pauseResume cs"

fun recordedMillis :: "int \<Rightarrow> (int \<times> int) list \<Rightarrow> int" where
  "recordedMillis start [] = 0"
| "recordedMillis start ((p, r) # cs) = (p - start) + recordedMillis r cs"

fun lastStart :: "int \<Rightarrow> (int \<times> int) list \<Rightarrow> int" where
  "lastStart start [] = start"
| "lastStart start ((p, r) # cs) = lastStart r cs"

text \<open>The event that hands the modal a recorder.\<close>

definition isGotMedia :: "event \<Rightarrow> bool" where
  "isGotMedia e = (case e of GotMedia now \<Rightarrow> True | _ \<Rightarrow> False)"

text \<open>
  Invariants of the modal's steps. \<open>wavOnly\<close>: every promise that is resolved with an
  artifact holds a blob of type \<^verbatim>\<open>audio/wav\<close>. \<open>wellFormed\<close>: the recorder held is one of
  the recorders created, and every recorder has a \<^verbatim>\<open>stop\<close> listener. \<open>live\<close> is the
  modal while a recorder is held and recording, with the interval armed.
\<close>

definition wavOnly :: "promise list \<Rightarrow> bool" where
  "wavOnly ps = (\<forall>p\<in>set ps. \<forall>b. pstate p = Resolved (Some b) \<longrightarrow> btype b = ''audio/wav'')"

definition wellFormed :: "modal \<Rightarrow> bool" where
  "wellFormed s =
     ((\<forall>d. mediaRecorder s = Some d \<longrightarrow> d < length (devices s))
      \<and> (\<forall>m\<in>set (devices s). 0 < stopListeners m))"

definition live :: "modal \<Rightarrow> bool" where
  "live s =
     ((case mediaRecorder s of
         Some d \<Rightarrow> d < length (devices s) \<and> dstate (devices s ! d) = Recording
       | None \<Rightarrow> False)
      \<and> isRecording s \<and> \<not> closed s \<and> intervalId s \<noteq> None)"

text \<open>
  What the two patterns of \<open>commandGenerateTranscript\<close> match, stated without the search.
  \<open>reads text i w\<close>: from index \<open>i\<close> on, the text reads \<open>w\<close>. An audio name is one or more
  characters other than brackets followed by \<^verbatim>\<open>.mp3\<close> or \<^verbatim>\<open>.wav\<close>; a target is an
  audio name followed by the pattern's lookahead. A wiki-style reference at index \<open>i\<close>
  is an audio name that starts there, between \<^verbatim>\<open>[[\<close> and \<^verbatim>\<open>]]\<close>. A markdown-style
  reference at \<open>i\<close> is the longest audio name that starts there and is followed by \<^verbatim>\<open>)\<close>
  (a name may hold parentheses, and the pattern is greedy); before it come \<^verbatim>\<open>](\<close> and,
  earlier on the same line, an opening bracket.
\<close>

definition reads :: "string \<Rightarrow> nat \<Rightarrow> string \<Rightarrow> bool" where
  "reads text i w = (take (length w) (drop i text) = w)"

definition audioName :: "string \<Rightarrow> bool" where
  "audioName s =
     (4 < length s \<and> list_all nonBracket (take (length s - 4) s) \<and> audioExt (drop (length s - 4) s))"

definition target :: "string \<Rightarrow> string \<Rightarrow> nat \<Rightarrow> string \<Rightarrow> bool" where
  "target ahead text i s = (audioName s \<and> reads text i (s @ ahead))"

definition wikiReference :: "string \<Rightarrow> nat \<Rightarrow> string \<Rightarrow> bool" where
  "wikiReference text i s = (audioName s \<and> 2 \<le> i \<and> reads text (i - 2) (''[['' @ s @ '']]''))"

definition labelled :: "string \<Rightarrow> nat \<Rightarrow> bool" where
  "labelled text i =
     (2 \<le> i \<and> reads text (i - 2) ''](''
      \<and> (\<exists>q\<in>{..<i - 2}. text ! q = CHR ''['' \<and> (\<forall>k\<in>{q<..<i - 2}. \<not> lineTerminator (text ! k))))"

definition markdownReference :: "string \<Rightarrow> nat \<Rightarrow> string \<Rightarrow> bool" where
  "markdownReference text i s =
     (labelled text i \<and> target '')'' text i s
      \<and> (\<forall>n\<in>{length s<..length text - i}. \<not> target '')'' text i (take n (drop i text))))"

text \<open>
  For the proofs about the search: the test \<open>tryLen\<close> makes at a name of \<open>j\<close> characters,
  a name of \<open>j\<close> characters that the body of a pattern can take, and a result of a
  pattern at offset \<open>k\<close> of the rest of the text.
\<close>

definition endsAt :: "string \<Rightarrow> string \<Rightarrow> nat \<Rightarrow> bool" where
  "endsAt ahead rest j =
     (audioExt (take 4 (drop j rest)) \<and> take (length ahead) (drop (j + 4) rest) = ahead)"

definition nameAt :: "string \<Rightarrow> string \<Rightarrow> nat \<Rightarrow> bool" where
  "nameAt ahead rest j =
     (0 < j \<and> j \<le> length (takeWhile nonBracket rest) \<and> endsAt ahead rest j)"

definition foundAt ::
  "(string \<Rightarrow> bool) \<Rightarrow> string \<Rightarrow> string \<Rightarrow> string \<Rightarrow> nat \<Rightarrow> string \<Rightarrow> bool" where
  "foundAt behind ahead pre rest k m =
     (k < length rest \<and> behind (rev (take k rest) @ pre)
      \<and> (\<exists>n. matchAt ahead (drop k rest) = Some n \<and> m = take n (drop k rest)))"

text \<open>
  The time a recorder spends recording, read off its \<^verbatim>\<open>state\<close> rather than off the modal's
  bookkeeping. \<open>recordingTime d evs s (total, since)\<close> follows the run of \<open>evs\<close> from \<open>s\<close> and
  looks at recorder \<open>d\<close> before and after every event that carries a time: when the
  recorder leaves the state \<^verbatim>\<open>recording\<close>, the time since it entered is added to \<open>total\<close>;
  when it enters, \<open>since\<close> becomes the time of the event. The clicks on restart, stop and
  transcribe carry no time; \<open>keepsSession\<close> holds of every other event.
\<close>

definition timeOf :: "event \<Rightarrow> int option" where
  "timeOf e =
     (case e of GotMedia now \<Rightarrow> Some now | PlayPause now \<Rightarrow> Some now | Tick now \<Rightarrow> Some now
      | _ \<Rightarrow> None)"

definition observe :: "nat \<Rightarrow> event \<Rightarrow> modal \<Rightarrow> int \<times> int \<Rightarrow> int \<times> int" where
  "observe d e s acc =
     (case timeOf e of
        None \<Rightarrow> acc
      | Some t \<Rightarrow>
          (if stateOf s d = Recording \<and> stateOf (step e s) d \<noteq> Recording
           then (fst acc + (t - snd acc), snd acc)
           else if stateOf s d \<noteq> Recording \<and> stateOf (step e s) d = Recording
           then (fst acc, t)
           else acc))"

fun recordingTime :: "nat \<Rightarrow> event list \<Rightarrow> modal \<Rightarrow> int \<times> int \<Rightarrow> int \<times> int" where
  "recordingTime d [] s acc = acc"
| "recordingTime d (e # es) s acc = recordingTime d es (step e s) (observe d e s acc)"

definition keepsSession :: "event \<Rightarrow> bool" where
  "keepsSession e = (case e of Restart \<Rightarrow> False | Stop transcribe \<Rightarrow> False | _ \<Rightarrow> True)"

text \<open>
  The modal between the acquisition of the microphone and the first click on restart,
  stop or transcribe, when no click came before the acquisition: it holds one
  recorder, which is recording while \<open>isRecording\<close> is set and paused otherwise.
\<close>

definition inSession :: "modal \<Rightarrow> bool" where
  "inSession s =
     (mediaRecorder s = Some 0 \<and> length (devices s) = 1 \<and> \<not> stopPending (devices s ! 0)
      \<and> pendingMedia s = 0 \<and> \<not> closed s
      \<and> (if isRecording s then dstate (devices s ! 0) = Recording \<and> intervalId s \<noteq> None
          else dstate (devices s ! 0) = Paused \<and> intervalId s = None))"

text \<open>
  The events that can come between a click on stop or transcribe and the recorder's
  \<^verbatim>\<open>stop\<close> event without touching the promise of that click: fragments, granted
  microphone requests, clicks on play/pause and timer callbacks. \<open>artifacts\<close> are the
  blobs handed to \<open>handleAudioRecording\<close>, each with its flag (the calls with \<^verbatim>\<open>null\<close> left
  out). \<open>delivered\<close> is an invariant of the modal's steps: once an artifact has been
  handed over, the modal is closed and the stored promise is settled.
\<close>

definition quiet :: "event \<Rightarrow> bool" where
  "quiet e =
     (case e of
        GotMedia now \<Rightarrow> True
      | DataAvailable d data \<Rightarrow> True
      | PlayPause now \<Rightarrow> True
      | Tick now \<Rightarrow> True
      | _ \<Rightarrow> False)"

definition artifacts :: "modal \<Rightarrow> (blob \<times> bool) list" where
  "artifacts s = concat (map (\<lambda>(a, tr). case a of Some b \<Rightarrow> [(b, tr)] | None \<Rightarrow> []) (handled s))"

definition delivered :: "modal \<Rightarrow> bool" where
  "delivered s =
     (artifacts s = []
      \<or> (length (artifacts s) = 1 \<and> closed s
          \<and> (case resolve s of
                Some p \<Rightarrow> p < length (promises s) \<and> pstate (promises s ! p) \<noteq> Pending
              | None \<Rightarrow> False)))"

text \<open>
  A remote service that is told \<^verbatim>\<open>audio/mp3\<close> whatever content type a request carries: a
  run that is the same with \<open>r\<close> and with \<open>mp3Remote r\<close>, for every \<open>r\<close>, has declared
  \<^verbatim>\<open>audio/mp3\<close>. \<open>wavHandled\<close> is the invariant that every blob handed to
  \<open>handleAudioRecording\<close> has the type \<^verbatim>\<open>audio/wav\<close>.
\<close>

definition mp3Remote :: "remote \<Rightarrow> remote" where
  "mp3Remote r = r\<lparr>generate := (\<lambda>m p t u. generate r m p ''audio/mp3'' u)\<rparr>"

definition wavHandled :: "(blob option \<times> bool) list \<Rightarrow> bool" where
  "wavHandled hs = (\<forall>h\<in>set hs. \<forall>b. fst h = Some b \<longrightarrow> btype b = ''audio/wav'')"

section \<open>Concrete inputs\<close>

text \<open>
  The host's \<^verbatim>\<open>normalizePath\<close> on the strings of this model: runs of slashes and
  backslashes become one slash, a leading and a trailing slash are dropped, the empty
  path becomes \<^verbatim>\<open>/\<close>, and a no-break space becomes a space. The functions above take
  the host's function as the parameter \<open>np\<close>; this one stands in for it at concrete inputs.
\<close>

fun collapse :: "bool \<Rightarrow> string \<Rightarrow> string" where
  "collapse prev [] = []"
| "collapse prev (c # cs) =
     (if c = CHR ''/'' \<or> c = CHR 0x5C
      then (if prev then collapse True cs else CHR ''/'' # collapse True cs)
      else c # collapse False cs)"

definition normalizePath :: "string \<Rightarrow> string" where
  "normalizePath p =
     (let q = collapse False p;
          q1 = (if take 1 q = ''/'' then drop 1 q else q);
          q2 = (if q1 \<noteq> [] \<and> last q1 = CHR ''/'' then butlast q1 else q1)
      in if q2 = [] then ''/'' else map (\<lambda>c. if c = CHR 0xA0 then CHR '' '' else c) q2)"

text \<open>
  A morning; a remote service that answers every generation request with \<^verbatim>\<open>Memo\<close>, one
  whose answer holds no text, and one that answers with the content type it was told;
  a recorded blob.
\<close>

definition morning :: date where
  "morning = \<lparr>isoDate = ''2024-01-01'', hours = 9\<rparr>"

definition goodRemote :: remote where
  "goodRemote =
     \<lparr> uploadUrl = Inr (Some ''https://upload''), fileUri = Inr (Some ''files/1''),
       generate = (\<lambda>m p t u. Inr (Some ''Memo'')), clock = morning \<rparr>"

definition noTextRemote :: remote where
  "noTextRemote = goodRemote\<lparr>generate := (\<lambda>m p t u. Inr None)\<rparr>"

definition echoRemote :: remote where
  "echoRemote = goodRemote\<lparr>generate := (\<lambda>m p t u. Inr (Some t))\<rparr>"

definition recorded :: blob where
  "recorded = \<lparr>parts = [''a'', ''b''], btype = ''audio/wav''\<rparr>"

text \<open>
  Plugins: with the default settings and an empty vault; with a template path that
  names no file of the vault; with this morning's first recording in the recording
  folder; set to inline placement with no document open, holding one recording; and
  with this morning's first note at the root of the vault and a root-level file
  active (the parent of a root-level file is the root folder, whose path is \<^verbatim>\<open>/\<close>).
\<close>

definition defaultPlugin :: plugin where
  "defaultPlugin =
     \<lparr> settings = DEFAULT_SETTINGS, saved = None, vault = [], activeView = None,
       activeFileParent = None, notices = [], transcript = [], writing = False, opened = [] \<rparr>"


definition recPlugin :: plugin where
  "recPlugin =
     \<lparr> settings = DEFAULT_SETTINGS, saved = None,
       vault = [(''Captain's Log/recordings'', TFolder),
                (''Captain's Log/recordings/recording-2024-01-01-Morning.mp3'', TFile ''old'')],
       activeView = None, activeFileParent = None,
       notices = [], transcript = [], writing = False, opened = [] \<rparr>"


definition rootFilePlugin :: plugin where
  "rootFilePlugin =
     defaultPlugin\<lparr>vault := [(''Captain's Log 2024-01-01-Morning.md'', TFile ''first''),
                             (''rec.mp3'', TFile ''ab'')],
                   activeFileParent := Some ''/''\<rparr>"

text \<open>A vault with two audio files.\<close>

definition audioVault :: vault where
  "audioVault = [(''a.mp3'', TFile ''x''), (''b.wav'', TFile ''y'')]"

text \<open>
  Sessions: one without pause or restart; and one with two clicks on restart, the
  first while the recorder is held, the second after its stale events have been
  dropped, followed by a new recording of three fragments.
\<close>

definition plainSession :: "event list" where
  "plainSession = [GotMedia 0, DataAvailable 0 ''a'', Stop True, DataAvailable 0 ''b'', Stopped 0]"

definition restartTwice :: "event list" where
  "restartTwice =
     [GotMedia 0, DataAvailable 0 ''old'', Restart, DataAvailable 0 ''stale'', Stopped 0,
      Restart, PlayPause 10, GotMedia 20, DataAvailable 1 ''new1'', DataAvailable 1 ''new2'',
      Stop True, DataAvailable 1 ''new3'', Stopped 1]"

section \<open>Properties of the uniqueness loops\<close>

lemma firstFree_Some:
  assumes "firstFree taken n = Some k"
  shows "n \<le> k \<and> \<not> taken k \<and> (\<forall>j. n \<le> j \<and> j < k \<longrightarrow> taken j)"
  using assms
proof (induct taken n k rule: firstFree.raw_induct)
  case (1 f tk c y)
  show ?case
  proof (cases "tk c")
    case True
    with 1(2) have a: "f tk (c + 1) = Some y" by simp
    from 1(3) True have b: "firstFree tk (c + 1) = Some y"
      by (subst (asm) firstFree.simps) simp
    from 1(1)[OF a b] True show ?thesis
      by (metis Suc_eq_plus1 Suc_leD Suc_leI le_neq_implies_less)
  next
    case False
    with 1(2) show ?thesis by auto
  qed
qed (rule assms)

lemma firstFree_returns:
  "\<not> taken k \<Longrightarrow> n \<le> k \<Longrightarrow> \<exists>m. firstFree taken n = Some m"
proof (induction "k - n" arbitrary: n)
  case 0
  then have "n = k" by simp
  with 0 show ?case by (subst firstFree.simps) simp
next
  case (Suc x)
  show ?case
  proof (cases "taken n")
    case True
    from Suc have "x = k - (n + 1)" "n + 1 \<le> k" by simp_all
    from Suc(1)[OF this(1) Suc(3) this(2)] True show ?thesis
      by (subst firstFree.simps) simp
  next
    case False
    then show ?thesis by (subst firstFree.simps) simp
  qed
qed

lemma digitVal_digitChar: "d < 10 \<Longrightarrow> digitVal (digitChar d) = d"
  by (simp add: digitVal_def digitChar_def)

lemma parse_toStr: "foldl (\<lambda>acc c. 10 * acc + digitVal c) 0 (toStr n) = n"
proof (induction n rule: toStr.induct)
  case (1 n)
  show ?case
  proof (cases "n < 10")
    case True
    then show ?thesis by (subst toStr.simps) (simp add: digitVal_digitChar)
  next
    case False
    with 1 show ?thesis by (subst toStr.simps) (simp add: digitVal_digitChar)
  qed
qed

lemma digitChar_simps:
  "digitChar 0 = CHR ''0''" "digitChar 1 = CHR ''1''" "digitChar 2 = CHR ''2''"
  "digitChar 3 = CHR ''3''" "digitChar 4 = CHR ''4''" "digitChar 5 = CHR ''5''"
  "digitChar 6 = CHR ''6''" "digitChar 7 = CHR ''7''" "digitChar 8 = CHR ''8''"
  "digitChar 9 = CHR ''9''"
  by code_simp+

lemma toStr_inj: "toStr m = toStr n \<Longrightarrow> m = n"
  by (metis parse_toStr)

lemma suffix_inj: "Suc 0 \<le> m \<Longrightarrow> Suc 0 \<le> n \<Longrightarrow> suffix m = suffix n \<Longrightarrow> m = n"
  by (cases "m \<le> 1"; cases "n \<le> 1") (auto simp: suffix_def dest: toStr_inj)

lemma recordingName_inj:
  "Suc 0 \<le> m \<Longrightarrow> Suc 0 \<le> n \<Longrightarrow> recordingName d m = recordingName d n \<Longrightarrow> m = n"
  using suffix_inj [of m n] by (simp add: recordingName_def)

lemma noteTitle_inj:
  "Suc 0 \<le> m \<Longrightarrow> Suc 0 \<le> n \<Longrightarrow> noteTitle d m = noteTitle d n \<Longrightarrow> m = n"
  using suffix_inj [of m n] by (simp add: noteTitle_def)

text \<open>A vault is finite: among the paths of an injective naming scheme one is free.\<close>

lemma free_count_exists:
  assumes "inj_on path {1::nat..}"
  shows "\<exists>k\<ge>1. getAbstractFileByPath v (path k) = None"
proof (rule ccontr)
  assume "\<not> ?thesis"
  then have "path ` {1..} \<subseteq> dom (map_of v)"
    by (auto simp: getAbstractFileByPath_def)
  then have "finite (path ` {1..})"
    by (rule finite_subset) (simp add: finite_dom_map_of)
  with assms have "finite {1::nat..}" by (simp add: finite_image_iff)
  then show False by (simp add: infinite_Ici)
qed

lemma unique_count_returns:
  assumes "inj_on path {1::nat..}"
  shows "\<exists>count. firstFree (\<lambda>count. getAbstractFileByPath v (path count) \<noteq> None) 1 = Some count"
proof -
  from free_count_exists [OF assms] obtain k
    where "1 \<le> k" and "getAbstractFileByPath v (path k) = None" by blast
  then show ?thesis
    using firstFree_returns [of "\<lambda>count. getAbstractFileByPath v (path count) \<noteq> None" k 1] by simp
qed

section \<open>The template\<close>



section \<open>Content types\<close>

lemma wavOnly_settle:
  "wavOnly (promises s) \<Longrightarrow> (\<forall>b. v = Resolved (Some b) \<longrightarrow> btype b = ''audio/wav'')
     \<Longrightarrow> wavOnly (promises (settle p v s))"
  unfolding wavOnly_def settle_def
  by (auto dest!: set_update_subset_insert [THEN subsetD])

lemma wavOnly_onStop: "wavOnly (promises s) \<Longrightarrow> wavOnly (promises (onStop s))"
  by (auto simp: onStop_def Let_def intro: wavOnly_settle split: option.splits)

lemma wavOnly_onStops: "wavOnly (promises s) \<Longrightarrow> wavOnly (promises ((onStop ^^ n) s))"
  by (induction n) (auto intro: wavOnly_onStop)

lemma promises_stopTimer [simp]: "promises (stopTimer s) = promises s"
  by (simp add: stopTimer_def)

lemma promises_startTimer [simp]: "promises (startTimer s) = promises s"
  by (simp add: startTimer_def Let_def)

lemma promises_setDevice [simp]: "promises (setDevice d f s) = promises s"
  by (simp add: setDevice_def)

lemma promises_stopDevice [simp]: "promises (stopDevice d s) = promises s"
  by (simp add: stopDevice_def)

lemma wavOnly_stopRecording: "wavOnly (promises s) \<Longrightarrow> wavOnly (promises (stopRecording t s))"
proof -
  assume a: "wavOnly (promises s)"
  let ?s1 = "s\<lparr>promises := promises s @ [\<lparr>pstate = Pending, awaiter = Some t\<rparr>],
                 resolve := Some (length (promises s))\<rparr>"
  from a have b: "wavOnly (promises ?s1)" by (simp add: wavOnly_def)
  show ?thesis
  proof (cases "mediaRecorder s")
    case None
    then show ?thesis using wavOnly_settle [OF b, of "Resolved None" "length (promises s)"]
      by (simp add: stopRecording_def Let_def)
  next
    case (Some d)
    then show ?thesis using b by (simp add: stopRecording_def Let_def)
  qed
qed

lemma wavOnly_step: "wavOnly (promises s) \<Longrightarrow> wavOnly (promises (step e s))"
proof (cases e)
  case (Stopped d)
  assume "wavOnly (promises s)"
  then have "wavOnly (promises (setDevice d (\<lambda>m. m\<lparr>stopPending := False\<rparr>) s))" by simp
  from wavOnly_onStops [OF this] \<open>wavOnly (promises s)\<close> show ?thesis
    by (simp add: step_def Stopped)
next
  case (MediaFailed err)
  assume "wavOnly (promises s)"
  then show ?thesis
    using wavOnly_settle [of "s\<lparr>pendingMedia := pendingMedia s - 1\<rparr>" "Rejected err"]
    by (simp add: step_def MediaFailed mediaFailed_def split: option.splits)
qed (auto simp: step_def gotMedia_def onDataAvailable_def pauseRecording_def
       resumeOrStartRecording_def startRecording_def hardReset_def tick_def Let_def
       intro: wavOnly_stopRecording split: option.splits)

lemma wavOnly_run: "wavOnly (promises s) \<Longrightarrow> wavOnly (promises (run evs s))"
  by (induction evs arbitrary: s) (auto intro: wavOnly_step)

lemma wavOnly_openModal: "wavOnly (promises openModal)"
  by (simp add: wavOnly_def openModal_def)

lemma extension_mp3: "basename file = x @ ''.mp3'' \<Longrightarrow> extension file = ''mp3''"
  by (simp add: extension_def)

lemma mime_mp3: "basename file = recordingName d count \<Longrightarrow> getMimeType file = ''audio/mp3''"
  by (simp add: getMimeType_def recordingName_def toLowerCase_def toLowerChar_def extension_def)

lemma testedRecordingPath_inj:
  "inj np \<Longrightarrow> inj_on (testedRecordingPath np pl d) {1..}"
  by (auto simp: testedRecordingPath_def Let_def inj_on_def dest: recordingName_inj injD)

lemma testedRecordingPath_root_inj:
  "trim (recordingFilePath (settings pl)) = [] \<Longrightarrow> inj_on (testedRecordingPath np pl d) {1..}"
  by (auto simp: testedRecordingPath_def Let_def inj_on_def dest: recordingName_inj)

section \<open>Settings and stored settings across a pipeline run\<close>

lemma settings_notice [simp]: "settings (notice m pl) = settings pl"
  and saved_notice [simp]: "saved (notice m pl) = saved pl"
  and vault_notice [simp]: "vault (notice m pl) = vault pl"
  and activeView_notice [simp]: "activeView (notice m pl) = activeView pl"
  and activeFileParent_notice [simp]: "activeFileParent (notice m pl) = activeFileParent pl"
  and transcript_notice [simp]: "transcript (notice m pl) = transcript pl"
  by (simp_all add: notice_def)







section \<open>Cleanup after the pipeline\<close>

text \<open>
  Once the recording is saved, \<open>transcribeRecording\<close> cannot throw (it catches every
  error of the remote steps and of the placement), so with keep-audio off the cleanup
  runs whatever the remote service returned.
\<close>

lemma getAbstractFileByPath_delete:
  "getAbstractFileByPath (delete v p) p = None"
  by (induction v) (auto simp: getAbstractFileByPath_def delete_def)

lemma getAbstractFileByPath_delete_None:
  "getAbstractFileByPath v p = None \<Longrightarrow> getAbstractFileByPath (delete v q) p = None"
  by (induction v) (auto simp: getAbstractFileByPath_def delete_def split: if_splits)

lemma cleanup_deletes:
  "cleanup f pl = Inr pl' \<Longrightarrow> getAbstractFileByPath (vault pl') f = None"
  by (auto simp: cleanup_def Let_def getAbstractFileByPath_delete getAbstractFileByPath_delete_None
      split: option.splits entry.splits if_splits)

lemma create_stores: "create v p c = Inr v' \<Longrightarrow> readBinary v' p = Some c"
  by (auto simp: create_def readBinary_def getAbstractFileByPath_def map_add_def split: if_splits)

lemma saveFile_stores:
  "saveFile np v0 b fileName path = Inr (v, f) \<Longrightarrow> readBinary v f = Some (concat (parts b))"
  unfolding saveFile_def Let_def
  by (auto split: sum.splits dest: create_stores)

lemma fallback_vault [simp]: "vault (fallback pl) = vault pl"
  by (simp add: fallback_def)

lemma transcribeRecording_throws:
  "transcribeRecording np r f pl = Some (Inl x) \<Longrightarrow> readBinary (vault pl) f = None"
  by (auto simp: transcribeRecording_def Let_def split: option.splits sum.splits)

lemma audio_deleted_whatever_the_remote_returns:
  assumes "recordingCount np pl d = Some count"
    and "saveFile np (vault pl) b (recordingName d count) (recordingFilePath (settings pl)) = Inr (v, f)"
    and "handleAudioRecording np r d (Some b) True False incl pl = Some pl'"
  shows "getAbstractFileByPath (vault pl') f = None"
proof -
  let ?pl1 = "saveSettings (pl\<lparr>vault := v,
      settings := (settings pl)\<lparr>keepAudio := False, includeAudioFileLink := incl\<rparr>\<rparr>)"
  from saveFile_stores [OF assms(2)] have "readBinary (vault ?pl1) f \<noteq> None"
    by (simp add: saveSettings_def)
  then have "transcribeRecording np r f ?pl1 \<noteq> Some (Inl x)" for x
    by (auto dest: transcribeRecording_throws)
  with assms show ?thesis
    by (auto simp: handleAudioRecording_def Let_def failed_def getAbstractFileByPath_delete
        split: option.splits sum.splits prod.splits dest: cleanup_deletes)
qed

text \<open>
  C1. The claim has the audio file survive a failed generation. In the code it does
  not: with the default settings, an empty vault, keep-audio off and a generation
  response without text, \<open>handleAudioRecording\<close> ends with an empty vault (the recording
  and its folder are deleted) after the notice \<^verbatim>\<open>No text returned from AI model.\<close>; with
  keep-audio on, the same run leaves the recording in its folder.
\<close>

theorem audio_deleted_after_failed_generation:
  "map_option vault
     (handleAudioRecording normalizePath noTextRemote morning (Some recorded) True False False defaultPlugin)
     = Some []
   \<and> map_option notices
     (handleAudioRecording normalizePath noTextRemote morning (Some recorded) True False False defaultPlugin)
     = Some [''Processing audio for transcription...'', ''Audio uploaded. Generating transcript...'',
             ''No text returned from AI model.'']
   \<and> map_option vault
     (handleAudioRecording normalizePath noTextRemote morning (Some recorded) True True False defaultPlugin)
     = Some [(''Captain's Log/recordings'', TFolder),
             (''Captain's Log/recordings/recording-2024-01-01-Morning.mp3'', TFile ''ab'')]"
  by code_simp

section \<open>The audio link of a new note\<close>

text \<open>The content of a new note does not depend on the keep-audio setting.\<close>

lemma transcriptContent_ignores_keepAudio:
  "transcriptContent (pl\<lparr>settings := (settings pl)\<lparr>keepAudio := k\<rparr>\<rparr>) f = transcriptContent pl f"
  by (simp add: transcriptContent_def)

text \<open>
  C7. The claim has the embed reference prepended only when keep-audio and
  include-link are both set. In the code the new-note content reads include-link
  alone: with include-link on and keep-audio off the note starts with the embed
  reference, and the recording it refers to is deleted by the cleanup (the vault ends
  with the note alone).
\<close>

theorem link_prepended_without_keep_audio:
  "map_option vault
     (handleAudioRecording normalizePath goodRemote morning (Some recorded) True False True defaultPlugin)
     = Some [(''Captain's Log 2024-01-01-Morning.md'',
              TFile (''![[Captain's Log/recordings/recording-2024-01-01-Morning.mp3]]''
                       @ [CHR 0x0A, CHR 0x0A] @ ''Memo''))]"
  by code_simp

section \<open>Which link is found\<close>

text \<open>
  The file name left by the loops comes from the last result in loop order, and the
  results of one pattern start at increasing indices.
\<close>

lemma assignAll_snoc:
  "assignAll dec np fn (rs @ [r]) =
     (case assignAll dec np fn rs of None \<Rightarrow> None | Some _ \<Rightarrow> map_option (trim \<circ> np) (dec r))"
  by (induction rs arbitrary: fn) (auto split: option.splits)

lemma assignAll_last:
  "assignAll dec np fn rs =
     (if list_ex (\<lambda>r. dec r = None) rs then None
      else if rs = [] then Some fn
      else map_option (trim \<circ> np) (dec (last rs)))"
proof (induction rs rule: rev_induct)
  case Nil
  show ?case by simp
next
  case (snoc r rs)
  have "dec (last rs) \<noteq> None" if "rs \<noteq> []" "\<not> list_ex (\<lambda>r. dec r = None) rs"
    using that last_in_set [of rs] by (auto simp: list_ex_iff)
  then show ?case unfolding assignAll_snoc snoc
    by (auto split: option.splits)
qed

lemma execAll_positions:
  "(p, m) \<in> set (execAll behind ahead pre rest) \<Longrightarrow> length pre \<le> p"
proof (induction behind ahead pre rest rule: execAll.induct)
  case (1 behind ahead pre)
  then show ?case by simp
next
  case (2 behind ahead pre c cs)
  show ?case
  proof (cases "behind pre")
    case False
    with 2 show ?thesis by fastforce
  next
    case True
    show ?thesis
    proof (cases "matchAt ahead (c # cs)")
      case None
      with 2 True show ?thesis by fastforce
    next
      case (Some n)
      from execAll.simps(2) [of behind ahead pre c cs] True Some 2(4)
      have "p = length pre \<or> (p, m) \<in> set (execAll behind ahead (rev (take n (c # cs)) @ pre) (drop n (c # cs)))"
        by auto
      with 2(2)[OF True Some] show ?thesis by auto
    qed
  qed
qed

lemma matchAt_pos: "matchAt ahead rest = Some n \<Longrightarrow> 0 < n"
  by (auto simp: matchAt_def dest: tryLen_pos)

lemma execAll_sorted:
  "sorted_wrt (<) (map fst (execAll behind ahead pre rest))"
proof (induction behind ahead pre rest rule: execAll.induct)
  case (1 behind ahead pre)
  then show ?case by simp
next
  case (2 behind ahead pre c cs)
  show ?case
  proof (cases "behind pre")
    case False
    with 2 show ?thesis by simp
  next
    case True
    show ?thesis
    proof (cases "matchAt ahead (c # cs)")
      case None
      with 2 True show ?thesis by simp
    next
      case (Some n)
      from matchAt_pos [OF Some] have "length pre < length (rev (take n (c # cs)) @ pre)"
        by (cases n) simp_all
      then have "\<forall>x\<in>set (execAll behind ahead (rev (take n (c # cs)) @ pre) (drop n (c # cs))). length pre < fst x"
        using execAll_positions by fastforce
      with 2(2)[OF True Some] True Some show ?thesis by simp
    qed
  qed
qed

text \<open>
  The search and what it finds: \<open>tryLen\<close> returns the longest name that passes its test,
  no result of either pattern starts inside another, and so the results of a pattern
  are the places where its lookbehind and its body match.
\<close>

lemma reads_append:
  "reads text i (u @ v) = (reads text i u \<and> reads text (i + length u) v)"
proof -
  have "take (length u + length v) (drop i text)
      = take (length u) (drop i text) @ take (length v) (drop (i + length u) text)"
    by (simp add: take_add add.commute)
  moreover have "take (length u) (drop i text) @ take (length v) (drop (i + length u) text) = u @ v
     \<longleftrightarrow> take (length u) (drop i text) = u \<and> take (length v) (drop (i + length u) text) = v"
  proof
    assume a: "take (length u) (drop i text) @ take (length v) (drop (i + length u) text) = u @ v"
    have "length (take (length u) (drop i text)) = length u"
    proof (rule ccontr)
      assume n: "length (take (length u) (drop i text)) \<noteq> length u"
      then have s: "length (drop i text) < length u" by simp
      then have "take (length v) (drop (i + length u) text) = []" by simp
      with a s show False
        by (auto dest!: arg_cong [where f = length])
    qed
    with a show "take (length u) (drop i text) = u \<and> take (length v) (drop (i + length u) text) = v"
      by simp
  qed simp
  ultimately show ?thesis by (simp add: reads_def)
qed

lemma reads_length: "reads text i w \<Longrightarrow> w \<noteq> [] \<Longrightarrow> i + length w \<le> length text"
proof -
  assume a: "reads text i w" and b: "w \<noteq> []"
  from a have "length (take (length w) (drop i text)) = length w" by (simp add: reads_def)
  then have "length w \<le> length text - i" by simp
  with b show ?thesis by (cases w) simp_all
qed

lemma tryLen_Suc:
  "tryLen ahead rest (Suc k) =
     (if endsAt ahead rest (Suc k) then Some (Suc k + 4) else tryLen ahead rest k)"
  by (simp add: endsAt_def)

lemma tryLen_iff:
  "tryLen ahead rest k = Some n \<longleftrightarrow>
     (\<exists>j. n = j + 4 \<and> 0 < j \<and> j \<le> k \<and> endsAt ahead rest j
        \<and> (\<forall>j'. j < j' \<and> j' \<le> k \<longrightarrow> \<not> endsAt ahead rest j'))"
proof (induction k)
  case 0
  show ?case by simp
next
  case (Suc k)
  show ?case
  proof (cases "endsAt ahead rest (Suc k)")
    case True
    have "(\<exists>j. n = j + 4 \<and> 0 < j \<and> j \<le> Suc k \<and> endsAt ahead rest j
        \<and> (\<forall>j'. j < j' \<and> j' \<le> Suc k \<longrightarrow> \<not> endsAt ahead rest j')) \<longleftrightarrow> n = Suc k + 4"
    proof
      assume "\<exists>j. n = j + 4 \<and> 0 < j \<and> j \<le> Suc k \<and> endsAt ahead rest j
        \<and> (\<forall>j'. j < j' \<and> j' \<le> Suc k \<longrightarrow> \<not> endsAt ahead rest j')"
      then obtain j where j: "n = j + 4" "j \<le> Suc k"
        "\<forall>j'. j < j' \<and> j' \<le> Suc k \<longrightarrow> \<not> endsAt ahead rest j'" by blast
      from j(3) True have "\<not> j < Suc k" by blast
      with j(1,2) show "n = Suc k + 4" by simp
    next
      assume "n = Suc k + 4"
      with True show "\<exists>j. n = j + 4 \<and> 0 < j \<and> j \<le> Suc k \<and> endsAt ahead rest j
        \<and> (\<forall>j'. j < j' \<and> j' \<le> Suc k \<longrightarrow> \<not> endsAt ahead rest j')"
        by (intro exI [of _ "Suc k"]) auto
    qed
    with True show ?thesis by (simp only: tryLen_Suc if_True option.inject eq_commute [of "Suc k + 4"])
  next
    case False
    have "(\<forall>j'. j < j' \<and> j' \<le> Suc k \<longrightarrow> \<not> endsAt ahead rest j')
        \<longleftrightarrow> (\<forall>j'. j < j' \<and> j' \<le> k \<longrightarrow> \<not> endsAt ahead rest j')" for j
      using False by (auto simp: le_Suc_eq)
    moreover have "j \<le> Suc k \<and> endsAt ahead rest j \<longleftrightarrow> j \<le> k \<and> endsAt ahead rest j" for j
      using False by (auto simp: le_Suc_eq)
    ultimately have "(\<exists>j. n = j + 4 \<and> 0 < j \<and> j \<le> Suc k \<and> endsAt ahead rest j
        \<and> (\<forall>j'. j < j' \<and> j' \<le> Suc k \<longrightarrow> \<not> endsAt ahead rest j'))
       \<longleftrightarrow> (\<exists>j. n = j + 4 \<and> 0 < j \<and> j \<le> k \<and> endsAt ahead rest j
        \<and> (\<forall>j'. j < j' \<and> j' \<le> k \<longrightarrow> \<not> endsAt ahead rest j'))"
      by metis
    with False Suc.IH show ?thesis by (simp only: tryLen_Suc if_False)
  qed
qed

lemma le_takeWhile:
  "j \<le> length (takeWhile P xs) \<longleftrightarrow> j \<le> length xs \<and> (\<forall>i<j. P (xs ! i))"
proof
  assume a: "j \<le> length (takeWhile P xs)"
  have "P (xs ! i)" if "i < j" for i
  proof -
    from that a have l: "i < length (takeWhile P xs)" by simp
    then have "takeWhile P xs ! i \<in> set (takeWhile P xs)" by (rule nth_mem)
    then have "P (takeWhile P xs ! i)" by (rule set_takeWhileD [THEN conjunct2])
    with takeWhile_nth [OF l] show ?thesis by simp
  qed
  with a length_takeWhile_le [of P xs] show "j \<le> length xs \<and> (\<forall>i<j. P (xs ! i))"
    by (meson le_trans)
next
  assume "j \<le> length xs \<and> (\<forall>i<j. P (xs ! i))"
  then show "j \<le> length (takeWhile P xs)"
    by (intro length_takeWhile_less_P_nth) simp_all
qed

lemma audioExt_length: "audioExt e \<Longrightarrow> length e = 4 \<and> list_all nonBracket e"
  by (auto simp: audioExt_def nonBracket_def)

lemma endsAt_length: "endsAt ahead rest j \<Longrightarrow> j + 4 \<le> length rest"
proof -
  assume "endsAt ahead rest j"
  then have "length (take 4 (drop j rest)) = 4" by (auto simp: endsAt_def dest: audioExt_length)
  then show ?thesis by simp
qed

lemma audioName_take:
  assumes "j + 4 \<le> length rest"
  shows "audioName (take (j + 4) rest)
       \<longleftrightarrow> 0 < j \<and> j \<le> length (takeWhile nonBracket rest) \<and> audioExt (take 4 (drop j rest))"
proof -
  have l: "length (take (j + 4) rest) = j + 4" using assms by simp
  have t: "take j (take (j + 4) rest) = take j rest" by (simp add: min_def)
  have d: "drop j (take (j + 4) rest) = take 4 (drop j rest)" by (simp add: drop_take)
  have "list_all nonBracket (take j rest) \<longleftrightarrow> j \<le> length (takeWhile nonBracket rest)"
    using assms by (auto simp: le_takeWhile list_all_length)
  then show ?thesis unfolding audioName_def l by (simp add: t d)
qed

lemma target_iff:
  "target ahead text i s \<longleftrightarrow>
     (\<exists>j. nameAt ahead (drop i text) j \<and> s = take (j + 4) (drop i text))"
proof
  assume a: "target ahead text i s"
  then have n: "audioName s" and r: "reads text i s" "reads text (i + length s) ahead"
    by (simp_all add: target_def reads_append)
  from n have l: "4 < length s" by (simp add: audioName_def)
  then have "s \<noteq> []" by auto
  from reads_length [OF r(1) this] have b: "length s \<le> length (drop i text)" by simp
  let ?j = "length s - 4"
  from l have j: "?j + 4 = length s" by simp
  from r(1) have s: "s = take (?j + 4) (drop i text)" by (simp add: reads_def j)
  from b j have c: "?j + 4 \<le> length (drop i text)" by simp
  from n s have "audioName (take (?j + 4) (drop i text))" by metis
  with audioName_take [OF c]
  have "0 < ?j" "?j \<le> length (takeWhile nonBracket (drop i text))"
    "audioExt (take 4 (drop ?j (drop i text)))" by blast+
  moreover have "drop (?j + 4) (drop i text) = drop (i + length s) text"
    unfolding j by (simp add: add.commute)
  with r(2) have "take (length ahead) (drop (?j + 4) (drop i text)) = ahead"
    by (simp only: reads_def)
  ultimately have "nameAt ahead (drop i text) ?j" by (simp add: nameAt_def endsAt_def)
  with s show "\<exists>j. nameAt ahead (drop i text) j \<and> s = take (j + 4) (drop i text)" by blast
next
  assume "\<exists>j. nameAt ahead (drop i text) j \<and> s = take (j + 4) (drop i text)"
  then obtain j where g: "nameAt ahead (drop i text) j" and s: "s = take (j + 4) (drop i text)"
    by blast
  from g have e: "endsAt ahead (drop i text) j" by (simp add: nameAt_def)
  from endsAt_length [OF e] have c: "j + 4 \<le> length (drop i text)" .
  then have l: "length s = j + 4" by (simp add: s)
  from g audioName_take [OF c] have n: "audioName s" by (simp add: s nameAt_def endsAt_def)
  have r1: "reads text i s" unfolding reads_def l using s by simp
  from e have r2: "reads text (i + length s) ahead"
    by (simp add: reads_def l endsAt_def add.commute)
  from n r1 r2 show "target ahead text i s" by (simp add: target_def reads_append)
qed

lemma matchAt_iff:
  "matchAt ahead rest = Some n \<longleftrightarrow>
     (\<exists>j. n = j + 4 \<and> nameAt ahead rest j \<and> (\<forall>j'. j < j' \<longrightarrow> \<not> nameAt ahead rest j'))"
proof -
  have "(\<forall>j'. j < j' \<and> j' \<le> length (takeWhile nonBracket rest) \<longrightarrow> \<not> endsAt ahead rest j')
      \<longleftrightarrow> (\<forall>j'. j < j' \<longrightarrow> \<not> nameAt ahead rest j')" for j
    by (auto simp: nameAt_def)
  then have "(\<exists>j. n = j + 4 \<and> 0 < j \<and> j \<le> length (takeWhile nonBracket rest) \<and> endsAt ahead rest j
        \<and> (\<forall>j'. j < j' \<and> j' \<le> length (takeWhile nonBracket rest) \<longrightarrow> \<not> endsAt ahead rest j'))
      \<longleftrightarrow> (\<exists>j. n = j + 4 \<and> nameAt ahead rest j \<and> (\<forall>j'. j < j' \<longrightarrow> \<not> nameAt ahead rest j'))"
    by (simp add: nameAt_def)
  then show ?thesis unfolding matchAt_def tryLen_iff .
qed

lemma nameAt_span:
  assumes "nameAt ahead rest j" and "i < j + 4"
  shows "nonBracket (rest ! i)"
proof -
  from assms(1) have e: "endsAt ahead rest j" and k: "j \<le> length (takeWhile nonBracket rest)"
    by (simp_all add: nameAt_def)
  show ?thesis
  proof (cases "i < j")
    case True
    with k show ?thesis by (simp add: le_takeWhile)
  next
    case False
    from e have a: "list_all nonBracket (take 4 (drop j rest))"
      by (auto simp: endsAt_def dest: audioExt_length)
    from False assms(2) have b: "i - j < 4" by simp
    from endsAt_length [OF e] b have "take 4 (drop j rest) ! (i - j) = rest ! i"
      using False by simp
    moreover from endsAt_length [OF e] b have "i - j < length (take 4 (drop j rest))" by simp
    ultimately show ?thesis using a by (metis list_all_length)
  qed
qed

lemma matchAt_span:
  assumes "matchAt ahead rest = Some n"
  shows "n \<le> length rest" and "0 < n" and "\<And>i. i < n \<Longrightarrow> nonBracket (rest ! i)"
proof -
  from assms obtain j where n: "n = j + 4" and g: "nameAt ahead rest j"
    unfolding matchAt_iff by blast
  from g have "endsAt ahead rest j" by (simp add: nameAt_def)
  from endsAt_length [OF this] n show "n \<le> length rest" by simp
  from n show "0 < n" by simp
  fix i
  assume "i < n"
  with n nameAt_span [OF g, of i] show "nonBracket (rest ! i)" by simp
qed

lemma foundAt_shift:
  assumes "n \<le> length rest"
  shows "foundAt behind ahead (rev (take n rest) @ pre) (drop n rest) k m
       \<longleftrightarrow> foundAt behind ahead pre rest (n + k) m"
proof -
  have a: "rev (take k (drop n rest)) @ rev (take n rest) @ pre = rev (take (n + k) rest) @ pre"
    by (simp add: take_add)
  have b: "drop k (drop n rest) = drop (n + k) rest" by (simp add: add.commute)
  have c: "k < length (drop n rest) \<longleftrightarrow> n + k < length rest" using assms by auto
  show ?thesis unfolding foundAt_def a b c ..
qed

lemma foundAt_0:
  "foundAt behind ahead pre rest 0 m
     \<longleftrightarrow> rest \<noteq> [] \<and> behind pre \<and> (\<exists>n. matchAt ahead rest = Some n \<and> m = take n rest)"
  by (simp add: foundAt_def)

lemma execAll_iff:
  assumes no: "\<And>pre rest n k. behind pre \<Longrightarrow> matchAt ahead rest = Some n \<Longrightarrow> 0 < k \<Longrightarrow> k < n
                 \<Longrightarrow> \<not> behind (rev (take k rest) @ pre)"
  shows "(p, m) \<in> set (execAll behind ahead pre rest)
       \<longleftrightarrow> (\<exists>k. p = length pre + k \<and> foundAt behind ahead pre rest k m)"
  using no
proof (induction behind ahead pre rest rule: execAll.induct)
  case (1 behind ahead pre)
  show ?case by (simp add: foundAt_def)
next
  case (2 behind ahead pre c cs)
  let ?rest = "c # cs"
  show ?case
  proof (cases "behind pre \<and> matchAt ahead ?rest \<noteq> None")
    case True
    then obtain n where b: "behind pre" and n: "matchAt ahead ?rest = Some n" by blast
    from matchAt_span [OF n] have nl: "n \<le> length ?rest" and n0: "0 < n" by simp_all
    let ?pre' = "rev (take n ?rest) @ pre"
    have e: "execAll behind ahead pre ?rest
           = (length pre, take n ?rest) # execAll behind ahead ?pre' (drop n ?rest)"
      using b n by simp
    have lp: "length ?pre' = length pre + n" using nl by simp
    have ih: "(p, m) \<in> set (execAll behind ahead ?pre' (drop n ?rest))
           \<longleftrightarrow> (\<exists>k'. p = length pre + (n + k') \<and> foundAt behind ahead pre ?rest (n + k') m)"
      using "2.IH"(2) [OF b n "2.prems"] unfolding foundAt_shift [OF nl] lp
      by (simp add: add.assoc)
    have z: "foundAt behind ahead pre ?rest 0 m \<longleftrightarrow> m = take n ?rest"
      using b n by (auto simp: foundAt_0)
    have mid: "\<not> foundAt behind ahead pre ?rest k m" if "0 < k" "k < n" for k
      using "2.prems" [OF b n that] by (simp add: foundAt_def)
    have "(\<exists>k. p = length pre + k \<and> foundAt behind ahead pre ?rest k m)
        \<longleftrightarrow> (p = length pre \<and> m = take n ?rest)
            \<or> (\<exists>k'. p = length pre + (n + k') \<and> foundAt behind ahead pre ?rest (n + k') m)"
    proof
      assume "\<exists>k. p = length pre + k \<and> foundAt behind ahead pre ?rest k m"
      then obtain k where k: "p = length pre + k" "foundAt behind ahead pre ?rest k m" by blast
      show "(p = length pre \<and> m = take n ?rest)
            \<or> (\<exists>k'. p = length pre + (n + k') \<and> foundAt behind ahead pre ?rest (n + k') m)"
      proof (cases "k = 0")
        case True
        with k z show ?thesis by simp
      next
        case False
        with mid [of k] k(2) have "n \<le> k" by (meson not_le_imp_less neq0_conv)
        then obtain k' where "k = n + k'" using le_Suc_ex by blast
        with k show ?thesis by blast
      qed
    next
      assume "(p = length pre \<and> m = take n ?rest)
            \<or> (\<exists>k'. p = length pre + (n + k') \<and> foundAt behind ahead pre ?rest (n + k') m)"
      with z show "\<exists>k. p = length pre + k \<and> foundAt behind ahead pre ?rest k m"
        by (metis add.right_neutral)
    qed
    with ih show ?thesis unfolding e by auto
  next
    case False
    have e: "execAll behind ahead pre ?rest = execAll behind ahead (c # pre) cs"
      using False by (auto split: option.splits)
    have sh: "foundAt behind ahead (c # pre) cs k m \<longleftrightarrow> foundAt behind ahead pre ?rest (Suc k) m" for k
      using foundAt_shift [of 1 ?rest behind ahead pre k m] by simp
    have ih: "(p, m) \<in> set (execAll behind ahead (c # pre) cs)
           \<longleftrightarrow> (\<exists>k. p = length (c # pre) + k \<and> foundAt behind ahead (c # pre) cs k m)"
    proof (cases "behind pre")
      case True
      with False have "matchAt ahead ?rest = None" by simp
      from "2.IH"(1) [OF True this "2.prems"] show ?thesis by simp
    next
      case f: False
      from "2.IH"(3) [OF f "2.prems"] show ?thesis by simp
    qed
    have z: "\<not> foundAt behind ahead pre ?rest 0 m"
      using False by (auto simp: foundAt_0)
    have "(\<exists>k. p = length pre + k \<and> foundAt behind ahead pre ?rest k m)
        \<longleftrightarrow> (\<exists>k. p = length (c # pre) + k \<and> foundAt behind ahead pre ?rest (Suc k) m)"
    proof
      assume "\<exists>k. p = length pre + k \<and> foundAt behind ahead pre ?rest k m"
      then obtain k where k: "p = length pre + k" "foundAt behind ahead pre ?rest k m" by blast
      with z have "k \<noteq> 0" by (cases k) auto
      then obtain k' where "k = Suc k'" by (cases k) simp_all
      with k show "\<exists>k. p = length (c # pre) + k \<and> foundAt behind ahead pre ?rest (Suc k) m"
        by (intro exI [of _ k']) simp
    next
      assume "\<exists>k. p = length (c # pre) + k \<and> foundAt behind ahead pre ?rest (Suc k) m"
      then obtain k where "p = length (c # pre) + k" "foundAt behind ahead pre ?rest (Suc k) m"
        by blast
      then show "\<exists>k. p = length pre + k \<and> foundAt behind ahead pre ?rest k m"
        by (intro exI [of _ "Suc k"]) simp
    qed
    with ih show ?thesis unfolding e sh by simp
  qed
qed

lemma rev_take_hd:
  assumes "0 < k" and "k \<le> length rest"
  shows "rev (take k rest) @ pre = rest ! (k - 1) # rev (take (k - 1) rest) @ pre"
proof -
  from assms obtain k' where k: "k = Suc k'" by (cases k) simp_all
  with assms(2) have "take k rest = take k' rest @ [rest ! k']"
    by (simp add: take_Suc_conv_app_nth)
  then show ?thesis by (simp add: k)
qed

lemma no_wiki:
  assumes "matchAt ahead rest = Some n" and "0 < k" and "k < n"
  shows "\<not> wikiBehind (rev (take k rest) @ pre)"
proof
  assume w: "wikiBehind (rev (take k rest) @ pre)"
  from matchAt_span(1) [OF assms(1)] assms(3) have kl: "k \<le> length rest" by simp
  from w have "rest ! (k - 1) = CHR ''[''"
    unfolding rev_take_hd [OF assms(2) kl] by (simp add: wikiBehind_def)
  moreover from matchAt_span(3) [OF assms(1), of "k - 1"] assms(2,3)
  have "nonBracket (rest ! (k - 1))" by simp
  ultimately show False by (simp add: nonBracket_def)
qed

lemma no_markdown:
  assumes "markdownBehind pre" and "matchAt ahead rest = Some n" and "0 < k" and "k < n"
  shows "\<not> markdownBehind (rev (take k rest) @ pre)"
proof
  assume w: "markdownBehind (rev (take k rest) @ pre)"
  from matchAt_span(1) [OF assms(2)] assms(4) have kl: "k \<le> length rest" by simp
  show False
  proof (cases "k = 1")
    case True
    from w have "take 1 pre = '']''"
      unfolding rev_take_hd [OF assms(3) kl] by (cases pre) (simp_all add: markdownBehind_def True)
    moreover from assms(1) have "take 1 pre = ''(''"
      by (cases pre) (simp_all add: markdownBehind_def)
    ultimately show False by simp
  next
    case False
    with assms(3) have k2: "0 < k - 1" by simp
    from kl have kl': "k - 1 \<le> length rest" by simp
    from w have "rest ! (k - 1 - 1) = CHR '']''"
      unfolding rev_take_hd [OF assms(3) kl] rev_take_hd [OF k2 kl']
      by (simp add: markdownBehind_def)
    moreover from matchAt_span(3) [OF assms(2), of "k - 1 - 1"] assms(4)
    have "nonBracket (rest ! (k - 1 - 1))" by simp
    ultimately show False by (simp add: nonBracket_def)
  qed
qed

lemma take2_rev_take:
  assumes "i \<le> length text"
  shows "take 2 (rev (take i text)) = [a, b] \<longleftrightarrow> 2 \<le> i \<and> reads text (i - 2) [b, a]"
proof (cases "2 \<le> i")
  case False
  then have "length (take 2 (rev (take i text))) < 2" using assms by simp
  then have "take 2 (rev (take i text)) \<noteq> [a, b]" by (metis length_Cons list.size(3) less_irrefl_nat numeral_2_eq_2)
  with False show ?thesis by simp
next
  case True
  have "take i text = take (i - 2) text @ take 2 (drop (i - 2) text)"
    using True by (metis take_add le_add_diff_inverse2)
  moreover have l: "length (take 2 (drop (i - 2) text)) = 2" using True assms by simp
  ultimately have "take 2 (rev (take i text)) = rev (take 2 (drop (i - 2) text))"
    by simp
  moreover have "rev (take 2 (drop (i - 2) text)) = [a, b] \<longleftrightarrow> take 2 (drop (i - 2) text) = [b, a]"
    by (metis rev.simps(1) rev.simps(2) rev_rev_ident append_Cons append_Nil)
  ultimately show ?thesis using True by (simp add: reads_def numeral_2_eq_2)
qed

lemma mem_takeWhile_rev:
  "x \<in> set (takeWhile P (rev xs))
     \<longleftrightarrow> (\<exists>q<length xs. xs ! q = x \<and> (\<forall>k. q \<le> k \<and> k < length xs \<longrightarrow> P (xs ! k)))"
proof (induction xs rule: rev_induct)
  case Nil
  show ?case by simp
next
  case (snoc y xs)
  show ?case
  proof (cases "P y")
    case False
    have "\<not> (\<exists>q<length (xs @ [y]). (xs @ [y]) ! q = x
           \<and> (\<forall>k. q \<le> k \<and> k < length (xs @ [y]) \<longrightarrow> P ((xs @ [y]) ! k)))"
    proof
      assume "\<exists>q<length (xs @ [y]). (xs @ [y]) ! q = x
           \<and> (\<forall>k. q \<le> k \<and> k < length (xs @ [y]) \<longrightarrow> P ((xs @ [y]) ! k))"
      then obtain q where "q < length (xs @ [y])"
        "\<forall>k. q \<le> k \<and> k < length (xs @ [y]) \<longrightarrow> P ((xs @ [y]) ! k)" by blast
      from this(2) [rule_format, of "length xs"] this(1) have "P y" by simp
      with False show False ..
    qed
    with False show ?thesis by simp
  next
    case True
    have "(\<exists>q<length (xs @ [y]). (xs @ [y]) ! q = x
           \<and> (\<forall>k. q \<le> k \<and> k < length (xs @ [y]) \<longrightarrow> P ((xs @ [y]) ! k)))
        \<longleftrightarrow> x = y \<or> (\<exists>q<length xs. xs ! q = x \<and> (\<forall>k. q \<le> k \<and> k < length xs \<longrightarrow> P (xs ! k)))"
      (is "?l \<longleftrightarrow> ?r")
    proof
      assume ?l
      then obtain q where q: "q < length (xs @ [y])" "(xs @ [y]) ! q = x"
        "\<forall>k. q \<le> k \<and> k < length (xs @ [y]) \<longrightarrow> P ((xs @ [y]) ! k)" by blast
      show ?r
      proof (cases "q = length xs")
        case True
        with q(2) show ?thesis by simp
      next
        case False
        with q(1) have ql: "q < length xs" by simp
        have "P (xs ! k)" if "q \<le> k" "k < length xs" for k
          using q(3) [rule_format, of k] that by (simp add: nth_append)
        with ql q(2) show ?thesis by (auto simp: nth_append)
      qed
    next
      assume ?r
      then show ?l
      proof
        assume "x = y"
        with True show ?l by (intro exI [of _ "length xs"]) (auto simp: nth_append)
      next
        assume "\<exists>q<length xs. xs ! q = x \<and> (\<forall>k. q \<le> k \<and> k < length xs \<longrightarrow> P (xs ! k))"
        then obtain q where q: "q < length xs" "xs ! q = x"
          "\<forall>k. q \<le> k \<and> k < length xs \<longrightarrow> P (xs ! k)" by blast
        have "P ((xs @ [y]) ! k)" if "q \<le> k" "k < length (xs @ [y])" for k
          using q(3) [rule_format, of k] that True by (cases "k = length xs") (auto simp: nth_append)
        with q(1,2) show ?l by (intro exI [of _ q]) (auto simp: nth_append)
      qed
    qed
    with True snoc.IH show ?thesis by auto
  qed
qed

lemma wikiBehind_iff:
  "i \<le> length text \<Longrightarrow> wikiBehind (rev (take i text) @ []) \<longleftrightarrow> 2 \<le> i \<and> reads text (i - 2) ''[[''"
  using take2_rev_take [of i "text" "CHR ''[''" "CHR ''[''"] by (simp add: wikiBehind_def)

lemma markdownBehind_iff:
  assumes "i \<le> length text"
  shows "markdownBehind (rev (take i text) @ []) \<longleftrightarrow> labelled text i"
proof -
  let ?xs = "take (i - 2) text"
  have l: "length ?xs = i - 2" using assms by simp
  have d: "drop 2 (rev (take i text)) = rev ?xs"
    using assms by (simp add: drop_rev min_def)
  have "CHR ''['' \<in> set (takeWhile (\<lambda>c. \<not> lineTerminator c) (rev ?xs))
      \<longleftrightarrow> (\<exists>q\<in>{..<i - 2}. text ! q = CHR ''['' \<and> (\<forall>k\<in>{q<..<i - 2}. \<not> lineTerminator (text ! k)))"
    (is "?l \<longleftrightarrow> ?r")
  proof
    assume ?l
    then obtain q where q: "q < i - 2" "?xs ! q = CHR ''[''"
      "\<forall>k. q \<le> k \<and> k < i - 2 \<longrightarrow> \<not> lineTerminator (?xs ! k)"
      unfolding mem_takeWhile_rev l by blast
    have "\<not> lineTerminator (text ! k)" if "k \<in> {q<..<i - 2}" for k
      using q(3) [rule_format, of k] that by simp
    with q(1,2) show ?r by (intro bexI [of _ q]) simp_all
  next
    assume ?r
    then obtain q where q: "q < i - 2" "text ! q = CHR ''[''"
      "\<forall>k\<in>{q<..<i - 2}. \<not> lineTerminator (text ! k)" by auto
    have "\<not> lineTerminator (?xs ! k)" if "q \<le> k \<and> k < i - 2" for k
    proof (cases "k = q")
      case True
      with q(1,2) show ?thesis by (simp add: lineTerminator_def)
    next
      case False
      with that q(3) show ?thesis by simp
    qed
    with q(1,2) show ?l unfolding mem_takeWhile_rev l by (intro exI [of _ q]) simp
  qed
  with take2_rev_take [OF assms, of "CHR ''(''" "CHR '']''"] show ?thesis
    by (simp add: markdownBehind_def labelled_def d)
qed

lemma nameAt_length: "nameAt ahead rest j \<Longrightarrow> length (take (j + 4) rest) = j + 4"
  by (auto simp: nameAt_def dest: endsAt_length)

lemma longest_iff:
  "(\<exists>n. matchAt ahead (drop i text) = Some n \<and> s = take n (drop i text))
     \<longleftrightarrow> target ahead text i s
         \<and> (\<forall>n\<in>{length s<..length text - i}. \<not> target ahead text i (take n (drop i text)))"
  (is "?l \<longleftrightarrow> ?t \<and> ?m")
proof
  assume ?l
  then obtain j where j: "nameAt ahead (drop i text) j" "s = take (j + 4) (drop i text)"
    and mx: "\<forall>j'. j < j' \<longrightarrow> \<not> nameAt ahead (drop i text) j'"
    unfolding matchAt_iff by blast
  from j have t: ?t unfolding target_iff by blast
  from nameAt_length [OF j(1)] j(2) have ls: "length s = j + 4" by simp
  have "\<not> target ahead text i (take n (drop i text))" if n: "n \<in> {length s<..length text - i}" for n
  proof
    assume "target ahead text i (take n (drop i text))"
    then obtain j' where j': "nameAt ahead (drop i text) j'"
      "take n (drop i text) = take (j' + 4) (drop i text)"
      unfolding target_iff by blast
    from n have "length (take n (drop i text)) = n" by simp
    with j'(2) nameAt_length [OF j'(1)] have "n = j' + 4" by simp
    with n ls have "j < j'" by simp
    with mx j'(1) show False by blast
  qed
  with t show "?t \<and> ?m" by blast
next
  assume a: "?t \<and> ?m"
  then obtain j where j: "nameAt ahead (drop i text) j" "s = take (j + 4) (drop i text)"
    unfolding target_iff by blast
  from nameAt_length [OF j(1)] j(2) have ls: "length s = j + 4" by simp
  have "\<not> nameAt ahead (drop i text) j'" if "j < j'" for j'
  proof
    assume n: "nameAt ahead (drop i text) j'"
    then have t: "target ahead text i (take (j' + 4) (drop i text))"
      unfolding target_iff by blast
    from nameAt_length [OF n] have "j' + 4 \<le> length text - i" by simp
    with that ls have "j' + 4 \<in> {length s<..length text - i}" by simp
    with a t show False by blast
  qed
  with j show ?l unfolding matchAt_iff by blast
qed

lemma wiki_longest:
  assumes "target '']]'' text i s"
    and t: "target '']]'' text i (take n (drop i text))"
    and n: "length s < n" "n \<le> length text - i"
  shows False
proof -
  from assms obtain j where j: "nameAt '']]'' (drop i text) j" "s = take (j + 4) (drop i text)"
    unfolding target_iff by blast
  from t obtain j' where j': "nameAt '']]'' (drop i text) j'"
    "take n (drop i text) = take (j' + 4) (drop i text)"
    unfolding target_iff by blast
  from nameAt_length [OF j(1)] j(2) have ls: "length s = j + 4" by simp
  from n have "length (take n (drop i text)) = n" by simp
  with j'(2) nameAt_length [OF j'(1)] have "n = j' + 4" by simp
  with n ls have lt: "j + 4 < j' + 4" by simp
  from j(1) have "take 2 (drop (j + 4) (drop i text)) = '']]''"
    by (simp add: nameAt_def endsAt_def numeral_2_eq_2)
  then have "drop (j + 4) (drop i text) ! 0 = CHR '']''"
    by (cases "drop (j + 4) (drop i text)") simp_all
  moreover from nameAt_length [OF j'(1)] lt have "j + 4 < length (drop i text)" by simp
  ultimately have "drop i text ! (j + 4) = CHR '']''"
    by (metis add.right_neutral less_imp_le_nat nth_drop)
  moreover from nameAt_span [OF j'(1) lt] have "nonBracket (drop i text ! (j + 4))" .
  ultimately show False by (simp add: nonBracket_def)
qed

lemma wikiLinks_iff: "(i, s) \<in> set (wikiLinks text) \<longleftrightarrow> wikiReference text i s"
proof -
  have "(i, s) \<in> set (wikiLinks text) \<longleftrightarrow> foundAt wikiBehind '']]'' [] text i s"
    unfolding wikiLinks_def by (subst execAll_iff) (auto dest: no_wiki)
  also have "\<dots> \<longleftrightarrow> i < length text \<and> (2 \<le> i \<and> reads text (i - 2) ''[['')
      \<and> target '']]'' text i s
      \<and> (\<forall>n\<in>{length s<..length text - i}. \<not> target '']]'' text i (take n (drop i text)))"
    unfolding foundAt_def longest_iff using wikiBehind_iff [of i "text"] by auto
  also have "\<dots> \<longleftrightarrow> (2 \<le> i \<and> reads text (i - 2) ''[['') \<and> target '']]'' text i s"
  proof -
    have "i < length text" if "target '']]'' text i s"
    proof -
      from that have "reads text i (s @ '']]'')" by (simp add: target_def)
      from reads_length [OF this] show ?thesis by simp
    qed
    moreover have "\<forall>n\<in>{length s<..length text - i}. \<not> target '']]'' text i (take n (drop i text))"
      if "target '']]'' text i s"
      using wiki_longest [OF that] by auto blast
    ultimately show ?thesis by blast
  qed
  also have "\<dots> \<longleftrightarrow> wikiReference text i s"
  proof (cases "2 \<le> i")
    case True
    then have "i - 2 + length ''[['' = i" by simp
    with reads_append [of "text" "i - 2" "''[[''" "s @ '']]''"] True show ?thesis
      by (auto simp: wikiReference_def target_def)
  next
    case False
    then show ?thesis by (simp add: wikiReference_def)
  qed
  finally show ?thesis .
qed

lemma markdownLinks_iff: "(i, s) \<in> set (markdownLinks text) \<longleftrightarrow> markdownReference text i s"
proof -
  have "(i, s) \<in> set (markdownLinks text) \<longleftrightarrow> foundAt markdownBehind '')'' [] text i s"
    unfolding markdownLinks_def by (subst execAll_iff) (auto dest: no_markdown)
  also have "\<dots> \<longleftrightarrow> i < length text \<and> labelled text i
      \<and> target '')'' text i s
      \<and> (\<forall>n\<in>{length s<..length text - i}. \<not> target '')'' text i (take n (drop i text)))"
    unfolding foundAt_def longest_iff using markdownBehind_iff [of i "text"] by auto
  also have "\<dots> \<longleftrightarrow> markdownReference text i s"
  proof -
    have "i < length text" if "target '')'' text i s"
    proof -
      from that have "reads text i (s @ '')'')" by (simp add: target_def)
      from reads_length [OF this] show ?thesis by simp
    qed
    then show ?thesis by (auto simp: markdownReference_def)
  qed
  finally show ?thesis .
qed

lemma last_is_greatest:
  assumes "sorted_wrt (<) (map fst xs)" and "(i::nat, s) \<in> set xs" and "\<forall>x\<in>set xs. fst x \<le> i"
  shows "last xs = (i, s)"
proof -
  from assms(2) have ne: "xs \<noteq> []" by auto
  then have xs: "xs = butlast xs @ [last xs]" by simp
  from assms(1) have "sorted_wrt (\<lambda>x y. fst x < fst y) xs" by (simp add: sorted_wrt_map)
  then have "sorted_wrt (\<lambda>x y. fst x < fst y) (butlast xs @ [last xs])" using xs by simp
  then have b: "\<forall>x\<in>set (butlast xs). fst x < fst (last xs)"
    by (simp add: sorted_wrt_append)
  from ne assms(3) have "fst (last xs) \<le> i" by simp
  have "(i, s) \<notin> set (butlast xs)"
  proof
    assume "(i, s) \<in> set (butlast xs)"
    with b have "fst (i, s) < fst (last xs)" by blast
    with \<open>fst (last xs) \<le> i\<close> show False by simp
  qed
  moreover from assms(2) xs have "(i, s) \<in> set (butlast xs) \<or> (i, s) = last xs"
    by (metis Un_iff empty_iff insert_iff list.set(1) list.set(2) set_append)
  ultimately show ?thesis by simp
qed

text \<open>
  C3 as stated fails: in \<^verbatim>\<open>[x](a.mp3) [[b.wav]]\<close> the reference closest to the end is
  the wiki-style \<^verbatim>\<open>b.wav\<close>, but \<open>findFilePath\<close> returns \<^verbatim>\<open>a.mp3\<close>, the markdown-style
  reference before it.
\<close>

theorem findFilePath_prefers_markdown_link:
  "wikiLinks ''[x](a.mp3) [[b.wav]]'' = [(13, ''b.wav'')]
   \<and> markdownLinks ''[x](a.mp3) [[b.wav]]'' = [(4, ''a.mp3'')]
   \<and> closestReference ''[x](a.mp3) [[b.wav]]'' = Some ''b.wav''
   \<and> findFilePath Some id audioVault ''[x](a.mp3) [[b.wav]]'' regex = Inr ''a.mp3''"
  by code_simp

text \<open>
  C3 (as amended). The results of the wiki pattern on a text are exactly its wiki-style
  references, and the results of the markdown pattern exactly its markdown-style
  references, each list in the order of the indices. \<open>findFilePath\<close> runs the wiki pattern
  over the whole text and then the markdown pattern, keeping the last result: when
  every reference can be decoded, it resolves the markdown-style reference that starts
  last if the text has one, otherwise the wiki-style reference that starts last, and
  fails with \<^verbatim>\<open>No file found in the text.\<close> if the text has neither; a reference that
  cannot be decoded makes it fail.
\<close>

theorem findFilePath_last_markdown_else_last_wiki:
  "(\<forall>i s. ((i, s) \<in> set (wikiLinks text)) = wikiReference text i s)
   \<and> (\<forall>i s. ((i, s) \<in> set (markdownLinks text)) = markdownReference text i s)
   \<and> sorted_wrt (<) (map fst (wikiLinks text))
   \<and> sorted_wrt (<) (map fst (markdownLinks text))
   \<and> findFilePath dec np v text regex =
       (if list_ex (\<lambda>r. dec r = None) (map snd (wikiLinks text @ markdownLinks text))
        then Inl ''URI malformed''
        else resolvePath v
               (case (if markdownLinks text \<noteq> [] then dec (snd (last (markdownLinks text)))
                      else if wikiLinks text \<noteq> [] then dec (snd (last (wikiLinks text)))
                      else None) of
                  None \<Rightarrow> []
                | Some decoded \<Rightarrow> trim (np decoded)))
   \<and> ((\<exists>j t. (wikiReference text j t \<or> markdownReference text j t) \<and> dec t = None) \<longrightarrow>
         findFilePath dec np v text regex = Inl ''URI malformed'')
   \<and> ((\<forall>j t. wikiReference text j t \<or> markdownReference text j t \<longrightarrow> dec t \<noteq> None) \<longrightarrow>
         (\<forall>i s decoded.
             markdownReference text i s \<and> (\<forall>j t. markdownReference text j t \<longrightarrow> j \<le> i)
             \<and> dec s = Some decoded \<longrightarrow>
             findFilePath dec np v text regex = resolvePath v (trim (np decoded)))
         \<and> (\<forall>i s decoded.
               (\<forall>j t. \<not> markdownReference text j t)
               \<and> wikiReference text i s \<and> (\<forall>j t. wikiReference text j t \<longrightarrow> j \<le> i)
               \<and> dec s = Some decoded \<longrightarrow>
               findFilePath dec np v text regex = resolvePath v (trim (np decoded)))
         \<and> ((\<forall>j t. \<not> markdownReference text j t \<and> \<not> wikiReference text j t) \<longrightarrow>
               findFilePath dec np v text regex = Inl ''No file found in the text.''))"
proof -
  let ?W = "wikiLinks text" and ?M = "markdownLinks text"
  let ?w = "map snd ?W" and ?m = "map snd ?M"
  have wi: "\<forall>i s. ((i, s) \<in> set ?W) = wikiReference text i s" by (simp add: wikiLinks_iff)
  have mi: "\<forall>i s. ((i, s) \<in> set ?M) = markdownReference text i s" by (simp add: markdownLinks_iff)
  have ws: "sorted_wrt (<) (map fst ?W)" by (simp add: execAll_sorted wikiLinks_def)
  have ms: "sorted_wrt (<) (map fst ?M)" by (simp add: execAll_sorted markdownLinks_def)
  have c: "concat (map (\<lambda>reg. reg text) regex) = ?w @ ?m"
    by (simp add: regex_def)
  have l: "last (?w @ ?m) = (if ?M \<noteq> [] then snd (last ?M) else snd (last ?W))" if "?w @ ?m \<noteq> []"
    using that by (auto simp: last_map last_append)
  have f: "findFilePath dec np v text regex =
     (if list_ex (\<lambda>r. dec r = None) (map snd (?W @ ?M))
      then Inl ''URI malformed''
      else resolvePath v
             (case (if ?M \<noteq> [] then dec (snd (last ?M))
                    else if ?W \<noteq> [] then dec (snd (last ?W))
                    else None) of
                None \<Rightarrow> []
              | Some decoded \<Rightarrow> trim (np decoded)))"
  proof (cases "?w @ ?m = []")
    case True
    then show ?thesis
      by (simp add: findFilePath_def c assignAll_last resolvePath_def)
  next
    case False
    have "dec (last (?w @ ?m)) \<noteq> None" if "\<not> list_ex (\<lambda>r. dec r = None) (?w @ ?m)"
      using that False last_in_set [OF False] by (auto simp: list_ex_iff)
    with False l [OF False] show ?thesis
      by (auto simp: findFilePath_def c assignAll_last split: option.splits)
  qed
  have ex: "list_ex (\<lambda>r. dec r = None) (map snd (?W @ ?M))
        \<longleftrightarrow> (\<exists>j t. (wikiReference text j t \<or> markdownReference text j t) \<and> dec t = None)"
  proof
    assume "list_ex (\<lambda>r. dec r = None) (map snd (?W @ ?M))"
    then obtain x where x: "x \<in> set ?W \<union> set ?M" "dec (snd x) = None"
      by (auto simp: list_ex_iff)
    obtain j t where jt: "x = (j, t)" by (cases x)
    with x wi mi have "(wikiReference text j t \<or> markdownReference text j t) \<and> dec t = None"
      by auto
    then show "\<exists>j t. (wikiReference text j t \<or> markdownReference text j t) \<and> dec t = None"
      by blast
  next
    assume "\<exists>j t. (wikiReference text j t \<or> markdownReference text j t) \<and> dec t = None"
    then obtain j t where "(j, t) \<in> set ?W \<union> set ?M" "dec t = None"
      using wi mi by auto
    then have "\<exists>x\<in>set (?W @ ?M). dec (snd x) = None" by force
    then show "list_ex (\<lambda>r. dec r = None) (map snd (?W @ ?M))"
      by (auto simp: list_ex_iff)
  qed
  have d: "findFilePath dec np v text regex = Inl ''URI malformed''"
    if "\<exists>j t. (wikiReference text j t \<or> markdownReference text j t) \<and> dec t = None"
  proof -
    from that ex have "list_ex (\<lambda>r. dec r = None) (map snd (?W @ ?M))" by blast
    with f show ?thesis by (simp only: if_True)
  qed
  have ok: "findFilePath dec np v text regex =
      resolvePath v
             (case (if ?M \<noteq> [] then dec (snd (last ?M))
                    else if ?W \<noteq> [] then dec (snd (last ?W))
                    else None) of
                None \<Rightarrow> []
              | Some decoded \<Rightarrow> trim (np decoded))"
    if "\<forall>j t. wikiReference text j t \<or> markdownReference text j t \<longrightarrow> dec t \<noteq> None"
  proof -
    from that have "\<not> (\<exists>j t. (wikiReference text j t \<or> markdownReference text j t) \<and> dec t = None)"
      by blast
    with ex have "\<not> list_ex (\<lambda>r. dec r = None) (map snd (?W @ ?M))" by blast
    with f show ?thesis by (simp only: if_False)
  qed
  have m: "findFilePath dec np v text regex = resolvePath v (trim (np decoded))"
    if a: "\<forall>j t. wikiReference text j t \<or> markdownReference text j t \<longrightarrow> dec t \<noteq> None"
      and r: "markdownReference text i s" "\<forall>j t. markdownReference text j t \<longrightarrow> j \<le> i"
        "dec s = Some decoded"
    for i s decoded
  proof -
    from r(1) mi have i: "(i, s) \<in> set ?M" by simp
    from r(2) mi have "\<forall>x\<in>set ?M. fst x \<le> i" by (metis prod.collapse)
    from last_is_greatest [OF ms i this] i r(3) ok [OF a] show ?thesis by auto
  qed
  have w: "findFilePath dec np v text regex = resolvePath v (trim (np decoded))"
    if a: "\<forall>j t. wikiReference text j t \<or> markdownReference text j t \<longrightarrow> dec t \<noteq> None"
      and n: "\<forall>j t. \<not> markdownReference text j t"
      and r: "wikiReference text i s" "\<forall>j t. wikiReference text j t \<longrightarrow> j \<le> i"
        "dec s = Some decoded"
    for i s decoded
  proof -
    from n mi have e: "?M = []" by (metis last_in_set prod.collapse)
    from r(1) wi have i: "(i, s) \<in> set ?W" by simp
    from r(2) wi have "\<forall>x\<in>set ?W. fst x \<le> i" by (metis prod.collapse)
    from last_is_greatest [OF ws i this] i r(3) e ok [OF a] show ?thesis by auto
  qed
  have n: "findFilePath dec np v text regex = Inl ''No file found in the text.''"
    if a: "\<forall>j t. wikiReference text j t \<or> markdownReference text j t \<longrightarrow> dec t \<noteq> None"
      and n: "\<forall>j t. \<not> markdownReference text j t \<and> \<not> wikiReference text j t"
  proof -
    from n mi have "?M = []" by (metis last_in_set prod.collapse)
    moreover from n wi have "?W = []" by (metis last_in_set prod.collapse)
    ultimately show ?thesis using ok [OF a] by (simp add: resolvePath_def)
  qed
  have d': "(\<exists>j t. (wikiReference text j t \<or> markdownReference text j t) \<and> dec t = None) \<longrightarrow>
         findFilePath dec np v text regex = Inl ''URI malformed''"
    using d by (rule impI)
  have r': "(\<forall>j t. wikiReference text j t \<or> markdownReference text j t \<longrightarrow> dec t \<noteq> None) \<longrightarrow>
         (\<forall>i s decoded.
             markdownReference text i s \<and> (\<forall>j t. markdownReference text j t \<longrightarrow> j \<le> i)
             \<and> dec s = Some decoded \<longrightarrow>
             findFilePath dec np v text regex = resolvePath v (trim (np decoded)))
         \<and> (\<forall>i s decoded.
               (\<forall>j t. \<not> markdownReference text j t)
               \<and> wikiReference text i s \<and> (\<forall>j t. wikiReference text j t \<longrightarrow> j \<le> i)
               \<and> dec s = Some decoded \<longrightarrow>
               findFilePath dec np v text regex = resolvePath v (trim (np decoded)))
         \<and> ((\<forall>j t. \<not> markdownReference text j t \<and> \<not> wikiReference text j t) \<longrightarrow>
               findFilePath dec np v text regex = Inl ''No file found in the text.'')"
  proof (intro impI conjI allI)
    fix i s decoded
    assume a: "\<forall>j t. wikiReference text j t \<or> markdownReference text j t \<longrightarrow> dec t \<noteq> None"
    {
      assume "markdownReference text i s \<and> (\<forall>j t. markdownReference text j t \<longrightarrow> j \<le> i)
             \<and> dec s = Some decoded"
      then show "findFilePath dec np v text regex = resolvePath v (trim (np decoded))"
        using m [OF a, of i s decoded] by simp
    }
    {
      assume "(\<forall>j t. \<not> markdownReference text j t)
               \<and> wikiReference text i s \<and> (\<forall>j t. wikiReference text j t \<longrightarrow> j \<le> i)
               \<and> dec s = Some decoded"
      then show "findFilePath dec np v text regex = resolvePath v (trim (np decoded))"
        using w [OF a, of i s decoded] by simp
    }
  next
    assume a: "\<forall>j t. wikiReference text j t \<or> markdownReference text j t \<longrightarrow> dec t \<noteq> None"
      and b: "\<forall>j t. \<not> markdownReference text j t \<and> \<not> wikiReference text j t"
    from n [OF a b] show "findFilePath dec np v text regex = Inl ''No file found in the text.''" .
  qed
  from wi mi ws ms f d' r' show ?thesis by (intro conjI)
qed

theorem findFilePath_last_markdown_else_last_wiki_witness:
  "wikiReference ''[[a.mp3]] and [[b.wav]]'' 2 ''a.mp3''
   \<and> wikiReference ''[[a.mp3]] and [[b.wav]]'' 16 ''b.wav''
   \<and> findFilePath Some id audioVault ''[[a.mp3]] and [[b.wav]]'' regex = Inr ''b.wav''
   \<and> markdownReference ''[x](a.mp3) and [y](b.wav)'' 4 ''a.mp3''
   \<and> markdownReference ''[x](a.mp3) and [y](b.wav)'' 19 ''b.wav''
   \<and> findFilePath Some id audioVault ''[x](a.mp3) and [y](b.wav)'' regex = Inr ''b.wav''
   \<and> findFilePath (\<lambda>s. None) id audioVault ''[[a.mp3]] and [[b.wav]]'' regex = Inl ''URI malformed''
   \<and> findFilePath Some id audioVault ''[[a.txt]] and (b.wav)'' regex
       = Inl ''No file found in the text.''"
proof -
  let ?T = "''[[a.mp3]] and [[b.wav]]''" and ?U = "''[x](a.mp3) and [y](b.wav)''"
  note t = findFilePath_last_markdown_else_last_wiki [of ?T Some id audioVault]
  note u = findFilePath_last_markdown_else_last_wiki [of ?U Some id audioVault]
  have r: "resolvePath audioVault (trim (id ''b.wav'')) = Inr ''b.wav''" by code_simp
  have d: "\<forall>j t. P j t \<longrightarrow> Some t \<noteq> None" for P :: "nat \<Rightarrow> string \<Rightarrow> bool" by simp
  have tw: "wikiLinks ?T = [(2, ''a.mp3''), (16, ''b.wav'')]" by code_simp
  have tm: "markdownLinks ?T = []" by code_simp
  from t [THEN conjunct1] tw
  have t1: "wikiReference ?T i s \<longleftrightarrow> (i, s) = (2, ''a.mp3'') \<or> (i, s) = (16, ''b.wav'')" for i s
    by auto
  from t [THEN conjunct2, THEN conjunct1] tm
  have t2: "\<not> markdownReference ?T i s" for i s by simp
  from t1 have t3: "\<forall>j s. wikiReference ?T j s \<longrightarrow> j \<le> 16" by auto
  from t [THEN conjunct2, THEN conjunct2, THEN conjunct2, THEN conjunct2, THEN conjunct2,
      THEN conjunct2, THEN mp, OF d, THEN conjunct2, THEN conjunct1, rule_format, of 16 "''b.wav''" "''b.wav''"]
    t1 t2 t3 r
  have a: "findFilePath Some id audioVault ?T regex = Inr ''b.wav''" by simp
  have uw: "wikiLinks ?U = []" by code_simp
  have um: "markdownLinks ?U = [(4, ''a.mp3''), (19, ''b.wav'')]" by code_simp
  from u [THEN conjunct2, THEN conjunct1] um
  have u1: "markdownReference ?U i s \<longleftrightarrow> (i, s) = (4, ''a.mp3'') \<or> (i, s) = (19, ''b.wav'')" for i s
    by auto
  from u1 have u3: "\<forall>j s. markdownReference ?U j s \<longrightarrow> j \<le> 19" by auto
  from u [THEN conjunct2, THEN conjunct2, THEN conjunct2, THEN conjunct2, THEN conjunct2,
      THEN conjunct2, THEN mp, OF d, THEN conjunct1, rule_format, of 19 "''b.wav''" "''b.wav''"]
    u1 u3 r
  have b: "findFilePath Some id audioVault ?U regex = Inr ''b.wav''" by simp
  note x = findFilePath_last_markdown_else_last_wiki [of ?T "\<lambda>s. None" id audioVault]
  from t1 [of 2 "''a.mp3''"]
  have "\<exists>j t. (wikiReference ?T j t \<or> markdownReference ?T j t) \<and> (\<lambda>s. None) t = (None :: string option)"
    by blast
  from x [THEN conjunct2, THEN conjunct2, THEN conjunct2, THEN conjunct2, THEN conjunct2,
      THEN conjunct1, THEN mp, OF this]
  have c: "findFilePath (\<lambda>s. None) id audioVault ?T regex = Inl ''URI malformed''" .
  let ?V = "''[[a.txt]] and (b.wav)''"
  note y = findFilePath_last_markdown_else_last_wiki [of ?V Some id audioVault]
  have vw: "wikiLinks ?V = []" and vm: "markdownLinks ?V = []" by code_simp+
  from y [THEN conjunct1] vw y [THEN conjunct2, THEN conjunct1] vm
  have "\<forall>j t. \<not> markdownReference ?V j t \<and> \<not> wikiReference ?V j t" by simp
  from y [THEN conjunct2, THEN conjunct2, THEN conjunct2, THEN conjunct2, THEN conjunct2,
      THEN conjunct2, THEN mp, OF d, THEN conjunct2, THEN conjunct2, THEN mp, OF this]
  have e: "findFilePath Some id audioVault ?V regex = Inl ''No file found in the text.''" .
  from t1 u1 a b c e show ?thesis by simp
qed

section \<open>The elapsed-time display\<close>

lemma live_cycle:
  assumes "live s"
  shows "live (step (PlayPause r) (step (PlayPause p) s))
       \<and> elapsedTime (step (PlayPause r) (step (PlayPause p) s)) = elapsedTime s + (p - startTime s)
       \<and> startTime (step (PlayPause r) (step (PlayPause p) s)) = r"
  using assms
  by (auto simp: live_def step_def pauseRecording_def resumeOrStartRecording_def stateOf_def
      setDevice_def stopTimer_def startTimer_def Let_def split: option.splits)

lemma live_cycles:
  "live s \<Longrightarrow>
     live (run (pauseResume cs) s)
     \<and> elapsedTime (run (pauseResume cs) s) = elapsedTime s + recordedMillis (startTime s) cs
     \<and> startTime (run (pauseResume cs) s) = lastStart (startTime s) cs"
proof (induction cs arbitrary: s)
  case Nil
  then show ?case by simp
next
  case (Cons c cs)
  obtain p r where c: "c = (p, r)" by (cases c)
  from live_cycle [OF Cons.prems, of r p] Cons.IH [of "step (PlayPause r) (step (PlayPause p) s)"]
  show ?case by (simp add: c)
qed

lemma live_gotMedia:
  "live (step (GotMedia t0) openModal)
   \<and> elapsedTime (step (GotMedia t0) openModal) = 0
   \<and> startTime (step (GotMedia t0) openModal) = t0"
  by (simp add: live_def step_def openModal_def gotMedia_def startTimer_def stopTimer_def Let_def)

lemma floor_split:
  "(a::int) div 1000 + b div 1000 \<le> (a + b) div 1000 \<and> (a + b) div 1000 \<le> a div 1000 + b div 1000 + 1"
proof -
  have e: "(a + b) div 1000 = a div 1000 + b div 1000 + (a mod 1000 + b mod 1000) div 1000"
    by (rule div_add1_eq)
  have r: "0 \<le> a mod 1000 + b mod 1000" "a mod 1000 + b mod 1000 \<le> 1999"
    using pos_mod_bound [of 1000 a] pos_mod_bound [of 1000 b] by simp_all
  have "0 \<le> (a mod 1000 + b mod 1000) div 1000"
    using r(1) by (simp add: pos_imp_zdiv_nonneg_iff)
  moreover have "(a mod 1000 + b mod 1000) div 1000 \<le> 1999 div 1000"
    using r(2) by (rule zdiv_mono1) simp
  ultimately show ?thesis unfolding e by simp
qed

lemma run_append: "run (xs @ ys) s = run ys (run xs s)"
  by (induction xs arbitrary: s) simp_all

lemma inSession_step:
  assumes "inSession s" and "keepsSession e"
    and "elapsedTime s = fst acc" and "isRecording s \<longrightarrow> startTime s = snd acc"
  shows "inSession (step e s)
       \<and> elapsedTime (step e s) = fst (observe 0 e s acc)
       \<and> (isRecording (step e s) \<longrightarrow> startTime (step e s) = snd (observe 0 e s acc))"
  using assms
  by (cases e)
     (auto simp: inSession_def keepsSession_def observe_def timeOf_def step_def stateOf_def
        mediaFailed_def onDataAvailable_def pauseRecording_def resumeOrStartRecording_def
        tick_def setDevice_def stopTimer_def startTimer_def Let_def split: if_splits)

lemma inSession_run:
  assumes "inSession s" and "list_all keepsSession evs"
    and "elapsedTime s = fst acc" and "isRecording s \<longrightarrow> startTime s = snd acc"
  shows "inSession (run evs s)
       \<and> elapsedTime (run evs s) = fst (recordingTime 0 evs s acc)
       \<and> (isRecording (run evs s) \<longrightarrow> startTime (run evs s) = snd (recordingTime 0 evs s acc))"
  using assms
proof (induction evs arbitrary: s acc)
  case Nil
  then show ?case by simp
next
  case (Cons e evs)
  from Cons.prems have k: "keepsSession e" "list_all keepsSession evs" by simp_all
  from inSession_step [OF Cons.prems(1) k(1) Cons.prems(3,4)]
  have a: "inSession (step e s)" "elapsedTime (step e s) = fst (observe 0 e s acc)"
    "isRecording (step e s) \<longrightarrow> startTime (step e s) = snd (observe 0 e s acc)"
    by simp_all
  from Cons.IH [OF a(1) k(2) a(2,3)] show ?case by simp
qed

lemma inSession_gotMedia:
  "inSession (step (GotMedia t0) openModal)
   \<and> isRecording (step (GotMedia t0) openModal)
   \<and> elapsedTime (step (GotMedia t0) openModal) = 0
   \<and> startTime (step (GotMedia t0) openModal) = t0
   \<and> observe 0 (GotMedia t0) openModal (0, 0) = (0, t0)"
  by (simp add: inSession_def step_def openModal_def gotMedia_def startTimer_def stopTimer_def
      Let_def observe_def timeOf_def stateOf_def)

lemma session_time:
  assumes "list_all keepsSession evs"
  shows "inSession (run (GotMedia t0 # evs) openModal)"
    and "elapsedTime (run (GotMedia t0 # evs) openModal)
           = fst (recordingTime 0 (GotMedia t0 # evs) openModal (0, 0))"
    and "isRecording (run (GotMedia t0 # evs) openModal) \<Longrightarrow>
           startTime (run (GotMedia t0 # evs) openModal)
             = snd (recordingTime 0 (GotMedia t0 # evs) openModal (0, 0))"
proof -
  let ?s = "step (GotMedia t0) openModal"
  from inSession_gotMedia [of t0]
  have a: "inSession ?s" "elapsedTime ?s = fst (0::int, t0)" "isRecording ?s \<longrightarrow> startTime ?s = snd (0::int, t0)"
    and o: "observe 0 (GotMedia t0) openModal (0, 0) = (0, t0)"
    by simp_all
  note r = inSession_run [OF a(1) assms a(2,3)]
  from r show "inSession (run (GotMedia t0 # evs) openModal)" by simp
  from r o show "elapsedTime (run (GotMedia t0 # evs) openModal)
           = fst (recordingTime 0 (GotMedia t0 # evs) openModal (0, 0))" by simp
  assume "isRecording (run (GotMedia t0 # evs) openModal)"
  with r o show "startTime (run (GotMedia t0 # evs) openModal)
             = snd (recordingTime 0 (GotMedia t0 # evs) openModal (0, 0))" by simp
qed

text \<open>
  A click on play/pause before the microphone is acquired is outside these sessions:
  the modal then counts from the next click on, while the recorder has been recording
  since the acquisition.
\<close>

lemma click_before_the_microphone:
  "elapsedTime (run [PlayPause 500, GotMedia 1000, PlayPause 61000, PlayPause 70000] openModal) = 9000
   \<and> recordingTime 0 [PlayPause 500, GotMedia 1000, PlayPause 61000, PlayPause 70000] openModal (0, 0)
       = (69000, 1000)"
  by code_simp

text \<open>
  C4 (as amended). In every state of the modal the interval's callback shows, as minutes
  and seconds, the floor of the accumulated seconds plus the floor of the running
  interval's seconds, each floored on its own: this is the floor of the whole sum or one
  second less. In a session that begins with the acquisition of the microphone at \<open>t0\<close>
  (no click comes before it), and up to the first click on restart, stop or transcribe,
  \<open>elapsedTime\<close> is exactly the time the recorder has spent recording in its completed
  intervals, and while it is recording \<open>startTime\<close> is the start of the running interval,
  however the clicks on play/pause, the fragments and the timer callbacks are
  interleaved. For plain pause/resume cycles these are the sum of the intervals and the
  time of the last resume.
\<close>

theorem ticker_shows_sum_of_floors:
  "(intervalId s \<noteq> None \<longrightarrow>
      timer (step (Tick now) s)
        = padNumber (elapsedTimeInSeconds now s div 60) @ '':'' @
          padNumber (jsRem (elapsedTimeInSeconds now s) 60))
   \<and> elapsedTimeInSeconds now s = elapsedTime s div 1000 + (now - startTime s) div 1000
   \<and> elapsedTimeInSeconds now s \<le> claimedSeconds now s
   \<and> claimedSeconds now s \<le> elapsedTimeInSeconds now s + 1
   \<and> (list_all keepsSession evs \<longrightarrow>
        elapsedTime (run (GotMedia t0 # evs) openModal)
          = fst (recordingTime 0 (GotMedia t0 # evs) openModal (0, 0))
        \<and> stateOf (run (GotMedia t0 # evs) openModal) 0
            = (if isRecording (run (GotMedia t0 # evs) openModal) then Recording else Paused)
        \<and> (isRecording (run (GotMedia t0 # evs) openModal) \<longrightarrow>
              startTime (run (GotMedia t0 # evs) openModal)
                = snd (recordingTime 0 (GotMedia t0 # evs) openModal (0, 0))
              \<and> intervalId (run (GotMedia t0 # evs) openModal) \<noteq> None))
   \<and> elapsedTime (run (GotMedia t0 # pauseResume cs) openModal) = recordedMillis t0 cs
   \<and> startTime (run (GotMedia t0 # pauseResume cs) openModal) = lastStart t0 cs
   \<and> elapsedTimeInSeconds now (run (GotMedia t0 # pauseResume cs) openModal)
       = recordedMillis t0 cs div 1000 + (now - lastStart t0 cs) div 1000
   \<and> timer (step (Tick now) (run (GotMedia t0 # pauseResume cs) openModal))
       = padNumber (elapsedTimeInSeconds now (run (GotMedia t0 # pauseResume cs) openModal) div 60)
           @ '':'' @
         padNumber (jsRem (elapsedTimeInSeconds now (run (GotMedia t0 # pauseResume cs) openModal)) 60)
   \<and> elapsedTimeInSeconds now (run (GotMedia t0 # pauseResume cs) openModal)
       \<le> (recordedMillis t0 cs + (now - lastStart t0 cs)) div 1000
   \<and> (recordedMillis t0 cs + (now - lastStart t0 cs)) div 1000
       \<le> elapsedTimeInSeconds now (run (GotMedia t0 # pauseResume cs) openModal) + 1"
proof -
  have a: "intervalId s \<noteq> None \<longrightarrow>
      timer (step (Tick now) s)
        = padNumber (elapsedTimeInSeconds now s div 60) @ '':'' @
          padNumber (jsRem (elapsedTimeInSeconds now s) 60)"
    by (simp add: step_def tick_def Let_def)
  have b: "elapsedTimeInSeconds now s = elapsedTime s div 1000 + (now - startTime s) div 1000"
    by (simp add: elapsedTimeInSeconds_def)
  from floor_split [of "elapsedTime s" "now - startTime s"]
  have c: "elapsedTimeInSeconds now s \<le> claimedSeconds now s"
    "claimedSeconds now s \<le> elapsedTimeInSeconds now s + 1"
    by (simp_all add: elapsedTimeInSeconds_def claimedSeconds_def)
  have d: "elapsedTime (run (GotMedia t0 # evs) openModal)
          = fst (recordingTime 0 (GotMedia t0 # evs) openModal (0, 0))
        \<and> stateOf (run (GotMedia t0 # evs) openModal) 0
            = (if isRecording (run (GotMedia t0 # evs) openModal) then Recording else Paused)
        \<and> (isRecording (run (GotMedia t0 # evs) openModal) \<longrightarrow>
              startTime (run (GotMedia t0 # evs) openModal)
                = snd (recordingTime 0 (GotMedia t0 # evs) openModal (0, 0))
              \<and> intervalId (run (GotMedia t0 # evs) openModal) \<noteq> None)"
    if k: "list_all keepsSession evs"
  proof -
    note t = session_time [OF k, of t0]
    from t(1) have "stateOf (run (GotMedia t0 # evs) openModal) 0
            = (if isRecording (run (GotMedia t0 # evs) openModal) then Recording else Paused)"
      and "isRecording (run (GotMedia t0 # evs) openModal) \<longrightarrow>
             intervalId (run (GotMedia t0 # evs) openModal) \<noteq> None"
      by (auto simp: inSession_def stateOf_def split: if_splits)
    with t(2,3) show ?thesis by simp
  qed
  let ?s = "run (pauseResume cs) (step (GotMedia t0) openModal)"
  have eq: "run (GotMedia t0 # pauseResume cs) openModal = ?s" by simp
  from live_gotMedia [of t0] live_cycles [of "step (GotMedia t0) openModal" cs]
  have l: "live ?s" and e: "elapsedTime ?s = recordedMillis t0 cs"
    and st: "startTime ?s = lastStart t0 cs"
    by simp_all
  have secs: "elapsedTimeInSeconds now ?s = recordedMillis t0 cs div 1000 + (now - lastStart t0 cs) div 1000"
    unfolding elapsedTimeInSeconds_def e st ..
  from l have t: "timer (step (Tick now) ?s)
       = padNumber (elapsedTimeInSeconds now ?s div 60) @ '':'' @ padNumber (jsRem (elapsedTimeInSeconds now ?s) 60)"
    by (simp add: live_def step_def tick_def Let_def)
  from floor_split [of "recordedMillis t0 cs" "now - lastStart t0 cs"]
  have old: "elapsedTime (run (GotMedia t0 # pauseResume cs) openModal) = recordedMillis t0 cs
   \<and> startTime (run (GotMedia t0 # pauseResume cs) openModal) = lastStart t0 cs
   \<and> elapsedTimeInSeconds now (run (GotMedia t0 # pauseResume cs) openModal)
       = recordedMillis t0 cs div 1000 + (now - lastStart t0 cs) div 1000
   \<and> timer (step (Tick now) (run (GotMedia t0 # pauseResume cs) openModal))
       = padNumber (elapsedTimeInSeconds now (run (GotMedia t0 # pauseResume cs) openModal) div 60)
           @ '':'' @
         padNumber (jsRem (elapsedTimeInSeconds now (run (GotMedia t0 # pauseResume cs) openModal)) 60)
   \<and> elapsedTimeInSeconds now (run (GotMedia t0 # pauseResume cs) openModal)
       \<le> (recordedMillis t0 cs + (now - lastStart t0 cs)) div 1000
   \<and> (recordedMillis t0 cs + (now - lastStart t0 cs)) div 1000
       \<le> elapsedTimeInSeconds now (run (GotMedia t0 # pauseResume cs) openModal) + 1"
    unfolding eq t unfolding secs e st by simp
  from a b c d old show ?thesis by blast
qed

theorem ticker_shows_sum_of_floors_witness:
  "list_all keepsSession
     [PlayPause 2100, Tick 2500, PlayPause 3000, DataAvailable 0 ''a'', PlayPause 4500, PlayPause 9000]
   \<and> elapsedTime (run [GotMedia 100, PlayPause 2100, Tick 2500, PlayPause 3000, DataAvailable 0 ''a'',
                         PlayPause 4500, PlayPause 9000] openModal) = 3500
   \<and> startTime (run [GotMedia 100, PlayPause 2100, Tick 2500, PlayPause 3000, DataAvailable 0 ''a'',
                       PlayPause 4500, PlayPause 9000] openModal) = 9000
   \<and> intervalId (run [GotMedia 100, PlayPause 2100, Tick 2500, PlayPause 3000, DataAvailable 0 ''a'',
                        PlayPause 4500, PlayPause 9000] openModal) \<noteq> None
   \<and> timer (run [GotMedia 100, PlayPause 2100, Tick 2500, PlayPause 3000, DataAvailable 0 ''a'',
                   PlayPause 4500, PlayPause 9000, Tick 9900] openModal) = ''00:03''
   \<and> claimedSeconds 9900 (run [GotMedia 100, PlayPause 2100, Tick 2500, PlayPause 3000,
                                 DataAvailable 0 ''a'', PlayPause 4500, PlayPause 9000] openModal) = 4"
proof -
  let ?evs = "[PlayPause 2100, Tick 2500, PlayPause 3000, DataAvailable 0 ''a'', PlayPause 4500, PlayPause 9000]"
  let ?s = "run (GotMedia 100 # ?evs) openModal"
  note t = ticker_shows_sum_of_floors [of ?s 9900 ?evs 100]
  have k: "list_all keepsSession ?evs" by code_simp
  have g: "recordingTime 0 (GotMedia 100 # ?evs) openModal (0, 0) = (3500, 9000)" by code_simp
  have r: "isRecording ?s" by code_simp
  from t k g r have e: "elapsedTime ?s = 3500" and st: "startTime ?s = 9000"
    and i: "intervalId ?s \<noteq> None"
    by simp_all
  from t i have "timer (step (Tick 9900) ?s)
        = padNumber (elapsedTimeInSeconds 9900 ?s div 60) @ '':'' @
          padNumber (jsRem (elapsedTimeInSeconds 9900 ?s) 60)"
    by blast
  moreover from t e st have "elapsedTimeInSeconds 9900 ?s = 3" by simp
  moreover have "padNumber (3 div 60) @ '':'' @ padNumber (jsRem 3 60) = ''00:03''" by code_simp
  ultimately have d: "timer (run (GotMedia 100 # ?evs @ [Tick 9900]) openModal) = ''00:03''"
    by (simp add: run_append)
  from e st have c: "claimedSeconds 9900 ?s = 4" by (simp add: claimedSeconds_def)
  from k e st i d c show ?thesis by simp
qed

text \<open>
  C4 as stated fails: after a first interval of 999 ms and 1001 ms of the second, the
  recorded time is 2000 ms, and the ticker shows \<^verbatim>\<open>00:01\<close>.
\<close>

theorem ticker_lags_a_second:
  "timer (run [GotMedia 0, PlayPause 999, PlayPause 5000, Tick 6001] openModal) = ''00:01''
   \<and> elapsedTime (run [GotMedia 0, PlayPause 999, PlayPause 5000] openModal) = 999
   \<and> startTime (run [GotMedia 0, PlayPause 999, PlayPause 5000] openModal) = 5000
   \<and> elapsedTimeInSeconds 6001 (run [GotMedia 0, PlayPause 999, PlayPause 5000] openModal) = 1
   \<and> claimedSeconds 6001 (run [GotMedia 0, PlayPause 999, PlayPause 5000] openModal) = 2"
  by code_simp

section \<open>The title of a new note\<close>

text \<open>
  The bucket by hours; the count chosen by the title loop is the first whose tested
  path is free; the tested path is the path of the new note when a default folder is
  configured or no file is active; and with no file active the second note of the
  morning is numbered.
\<close>

lemma period_buckets:
  "period h = (if h \<in> {4..11} then ''Morning'' else if h \<in> {12..19} then ''Afternoon'' else ''Night'')"
  by (auto simp: period_def)

lemma noteCount_first_free:
  assumes "noteCount np pl d = Some count"
  shows "1 \<le> count
       \<and> getAbstractFileByPath (vault pl) (testedNotePath np pl d count) = None
       \<and> (\<forall>j. 1 \<le> j \<and> j < count \<longrightarrow> getAbstractFileByPath (vault pl) (testedNotePath np pl d j) \<noteq> None)"
  using firstFree_Some [OF assms [unfolded noteCount_def]] by simp

lemma tested_path_is_note_path:
  "trim (defaultNoteFolder (settings pl)) \<noteq> [] \<or> activeFileParent pl = None
     \<Longrightarrow> testedNotePath np pl d count = notePathOf np pl d count"
  by (auto simp: testedNotePath_def notePathOf_def Let_def)

lemma second_note_is_numbered_without_active_file:
  "map_option (vault \<circ> finalState)
     (transcribeRecording normalizePath goodRemote ''rec.mp3'' (rootFilePlugin\<lparr>activeFileParent := None\<rparr>))
   = Some [(''Captain's Log 2024-01-01-Morning.md'', TFile ''first''), (''rec.mp3'', TFile ''ab''),
           (''Captain's Log 2024-01-01-Morning-2.md'', TFile ''Memo'')]"
  by code_simp

text \<open>
  C8. The claim has the suffix incremented until the target path is free. With no
  default folder and a root-level file active the loop tests
  \<^verbatim>\<open>//Captain's Log 2024-01-01-Morning.md\<close>, which names nothing, keeps the count at 1,
  and the note is then created at the normalised path
  \<^verbatim>\<open>Captain's Log 2024-01-01-Morning.md\<close>, which is taken: the creation fails, the vault is
  unchanged and the notice reports the failure.
\<close>

theorem second_note_beside_a_root_file_is_not_numbered:
  "noteCount normalizePath rootFilePlugin morning = Some 1
   \<and> testedNotePath normalizePath rootFilePlugin morning 1 = ''//Captain's Log 2024-01-01-Morning.md''
   \<and> notePathOf normalizePath rootFilePlugin morning 1 = ''Captain's Log 2024-01-01-Morning.md''
   \<and> map_option (vault \<circ> finalState)
         (transcribeRecording normalizePath goodRemote ''rec.mp3'' rootFilePlugin)
       = Some [(''Captain's Log 2024-01-01-Morning.md'', TFile ''first''), (''rec.mp3'', TFile ''ab'')]
   \<and> map_option (notices \<circ> finalState)
         (transcribeRecording normalizePath goodRemote ''rec.mp3'' rootFilePlugin)
       = Some [''Processing audio for transcription...'', ''Audio uploaded. Generating transcript...'',
               ''Failed to create new note for transcript.'']"
  by code_simp

section \<open>Stopping a session\<close>

lemma settle_frame [simp]:
  "mediaRecorder (settle p v s) = mediaRecorder s" "devices (settle p v s) = devices s"
  "chunks (settle p v s) = chunks s" "isResetting (settle p v s) = isResetting s"
  "resolve (settle p v s) = resolve s" "closed (settle p v s) = closed s"
  "length (promises (settle p v s)) = length (promises s)"
  by (simp_all add: settle_def)

lemma timer_frame [simp]:
  "mediaRecorder (stopTimer s) = mediaRecorder s" "devices (stopTimer s) = devices s"
  "chunks (stopTimer s) = chunks s" "isResetting (stopTimer s) = isResetting s"
  "resolve (stopTimer s) = resolve s" "closed (stopTimer s) = closed s"
  "handled (stopTimer s) = handled s"
  "mediaRecorder (startTimer s) = mediaRecorder s" "devices (startTimer s) = devices s"
  "chunks (startTimer s) = chunks s" "isResetting (startTimer s) = isResetting s"
  "resolve (startTimer s) = resolve s" "closed (startTimer s) = closed s"
  "handled (startTimer s) = handled s"
  by (simp_all add: stopTimer_def startTimer_def Let_def)

text \<open>Without a microphone there is no recorder.\<close>

lemma no_media_step:
  "\<not> isGotMedia e \<Longrightarrow> mediaRecorder s = None \<Longrightarrow> devices s = [] \<Longrightarrow> \<not> closed s \<Longrightarrow>
     mediaRecorder (step e s) = None \<and> devices (step e s) = [] \<and> \<not> closed (step e s)"
  by (cases e)
     (auto simp: isGotMedia_def step_def mediaFailed_def pauseRecording_def
        resumeOrStartRecording_def startRecording_def hardReset_def stopRecording_def tick_def
        Let_def split: option.splits)

lemma no_media_run:
  "\<forall>e\<in>set evs. \<not> isGotMedia e \<Longrightarrow> mediaRecorder s = None \<Longrightarrow> devices s = [] \<Longrightarrow> \<not> closed s \<Longrightarrow>
     mediaRecorder (run evs s) = None \<and> devices (run evs s) = [] \<and> \<not> closed (run evs s)"
proof (induction evs arbitrary: s)
  case Nil
  then show ?case by simp
next
  case (Cons e evs)
  from Cons.prems no_media_step [of e s]
  have "mediaRecorder (step e s) = None" "devices (step e s) = []" "\<not> closed (step e s)"
    by simp_all
  with Cons show ?case by simp
qed

lemma stopRecording_null:
  "mediaRecorder s = None \<Longrightarrow>
     pstate (promises (stopRecording tr s) ! length (promises s)) = Resolved None
     \<and> handled (stopRecording tr s) = handled s @ [(None, tr)]"
  by (simp add: stopRecording_def settle_def Let_def nth_append)

text \<open>A settled promise keeps its value.\<close>

lemma settle_settled:
  "p < length (promises s) \<Longrightarrow> pstate (promises s ! p) \<noteq> Pending \<Longrightarrow>
     promises (settle q v s) ! p = promises s ! p"
  by (cases "p = q") (simp_all add: settle_def)

lemma onStop_settled:
  "p < length (promises s) \<Longrightarrow> pstate (promises s ! p) \<noteq> Pending \<Longrightarrow>
     promises (onStop s) ! p = promises s ! p \<and> length (promises (onStop s)) = length (promises s)"
  by (auto simp: onStop_def Let_def settle_settled split: option.splits)

lemma onStops_settled:
  "p < length (promises s) \<Longrightarrow> pstate (promises s ! p) \<noteq> Pending \<Longrightarrow>
     promises ((onStop ^^ n) s) ! p = promises s ! p
     \<and> length (promises ((onStop ^^ n) s)) = length (promises s)"
proof (induction n)
  case 0
  then show ?case by simp
next
  case (Suc n)
  then have a: "promises ((onStop ^^ n) s) ! p = promises s ! p"
    and b: "length (promises ((onStop ^^ n) s)) = length (promises s)" by simp_all
  from Suc.prems a b onStop_settled [of p "(onStop ^^ n) s"] show ?case by simp
qed

lemma step_settled:
  assumes "p < length (promises s)" and "pstate (promises s ! p) \<noteq> Pending"
  shows "promises (step e s) ! p = promises s ! p \<and> p < length (promises (step e s))"
proof (cases e)
  case (Stopped d)
  from onStops_settled [of p "setDevice d (\<lambda>m. m\<lparr>stopPending := False\<rparr>) s"] assms
  show ?thesis by (simp add: step_def Stopped setDevice_def)
next
  case (MediaFailed err)
  with assms show ?thesis
    by (auto simp: step_def mediaFailed_def settle_settled split: option.splits)
next
  case (Stop tr)
  with assms show ?thesis
    by (auto simp: step_def stopRecording_def Let_def settle_settled nth_append setDevice_def
        stopDevice_def stopTimer_def settle_def split: option.splits)
qed (use assms in \<open>auto simp: step_def gotMedia_def startTimer_def stopTimer_def onDataAvailable_def
       pauseRecording_def resumeOrStartRecording_def startRecording_def hardReset_def tick_def
       setDevice_def stopDevice_def Let_def split: option.splits\<close>)

lemma run_settled:
  "p < length (promises s) \<Longrightarrow> pstate (promises s ! p) \<noteq> Pending \<Longrightarrow>
     promises (run evs s) ! p = promises s ! p"
proof (induction evs arbitrary: s)
  case Nil
  then show ?case by simp
next
  case (Cons e evs)
  from step_settled [OF Cons.prems, of e] Cons.prems Cons.IH [of "step e s"] show ?case by simp
qed

lemma wellFormed_setDevice:
  assumes "wellFormed s" and "\<And>m. 0 < stopListeners m \<Longrightarrow> 0 < stopListeners (f m)"
  shows "wellFormed (setDevice d f s)"
proof -
  have "0 < stopListeners m" if "m \<in> set ((devices s)[d := f (devices s ! d)])" for m
  proof -
    have "m = f (devices s ! d) \<and> d < length (devices s) \<or> m \<in> set (devices s)"
    proof (cases "d < length (devices s)")
      case True
      with that set_update_subset_insert [of "devices s" d "f (devices s ! d)"]
      show ?thesis by auto
    next
      case False
      then have "(devices s)[d := f (devices s ! d)] = devices s"
        by (simp add: list_update_beyond)
      with that show ?thesis by simp
    qed
    with assms show ?thesis by (auto simp: wellFormed_def)
  qed
  with assms(1) show ?thesis by (simp add: wellFormed_def setDevice_def)
qed

lemma wellFormed_frame:
  "wellFormed s \<Longrightarrow> mediaRecorder s' = mediaRecorder s \<Longrightarrow> devices s' = devices s \<Longrightarrow> wellFormed s'"
  by (simp add: wellFormed_def)

lemma wellFormed_released:
  "wellFormed s \<Longrightarrow> mediaRecorder s' = None \<Longrightarrow> devices s' = devices s \<Longrightarrow> wellFormed s'"
  by (simp add: wellFormed_def)

lemma onStop_frame [simp]:
  "mediaRecorder (onStop s) = mediaRecorder s" "devices (onStop s) = devices s"
  by (simp_all add: onStop_def Let_def split: option.splits)

lemma onStops_frame [simp]:
  "mediaRecorder ((onStop ^^ n) s) = mediaRecorder s" "devices ((onStop ^^ n) s) = devices s"
  by (induction n) simp_all

lemma setDevice_frame [simp]:
  "mediaRecorder (setDevice d f s) = mediaRecorder s"
  "length (devices (setDevice d f s)) = length (devices s)"
  by (simp_all add: setDevice_def)

lemma wellFormed_stopDevice: "wellFormed s \<Longrightarrow> wellFormed (stopDevice d s)"
  by (simp add: stopDevice_def wellFormed_setDevice)

lemma stopDevice_frame [simp]: "mediaRecorder (stopDevice d s) = mediaRecorder s"
  by (simp add: stopDevice_def)

lemma wellFormed_pauseRecording: "wellFormed s \<Longrightarrow> wellFormed (pauseRecording now s)"
proof -
  assume w: "wellFormed s"
  show ?thesis
  proof (cases "mediaRecorder s")
    case None
    with w show ?thesis by (simp add: pauseRecording_def)
  next
    case (Some d)
    have "wellFormed (setDevice d (\<lambda>m. m\<lparr>dstate := Paused\<rparr>) s)"
      using w by (rule wellFormed_setDevice) simp
    then have "wellFormed (stopTimer (setDevice d (\<lambda>m. m\<lparr>dstate := Paused\<rparr>) s)
        \<lparr>elapsedTime := e\<rparr>)" for e
      by (rule wellFormed_frame) simp_all
    with w Some show ?thesis by (simp add: pauseRecording_def Let_def)
  qed
qed

lemma wellFormed_resumeOrStartRecording:
  "wellFormed s \<Longrightarrow> wellFormed (resumeOrStartRecording now s)"
proof -
  assume w: "wellFormed s"
  have a: "wellFormed (startTimer (startRecording s\<lparr>startTime := now\<rparr>))"
    using w by (rule wellFormed_frame) (simp_all add: startRecording_def)
  have "wellFormed (setDevice d (\<lambda>m. m\<lparr>dstate := Recording\<rparr>) s)" for d
    using w by (rule wellFormed_setDevice) simp
  then have b: "wellFormed (startTimer (setDevice d (\<lambda>m. m\<lparr>dstate := Recording\<rparr>) s\<lparr>startTime := now\<rparr>))" for d
    by (rule wellFormed_frame) simp_all
  from a b show ?thesis
    by (simp add: resumeOrStartRecording_def Let_def split: option.splits)
qed

lemma wellFormed_hardReset: "wellFormed s \<Longrightarrow> wellFormed (hardReset s)"
proof -
  assume w: "wellFormed s"
  show ?thesis
  proof (cases "mediaRecorder s")
    case None
    from w show ?thesis
      by (rule wellFormed_frame) (simp_all add: hardReset_def None Let_def)
  next
    case (Some d)
    from wellFormed_stopDevice [OF w, of d] show ?thesis
      by (rule wellFormed_released) (simp_all add: hardReset_def Some Let_def)
  qed
qed

lemma wellFormed_stopRecording: "wellFormed s \<Longrightarrow> wellFormed (stopRecording tr s)"
proof -
  assume w: "wellFormed s"
  let ?s1 = "s\<lparr>promises := promises s @ [\<lparr>pstate = Pending, awaiter = Some tr\<rparr>],
                 resolve := Some (length (promises s))\<rparr>"
  from w have w1: "wellFormed ?s1" by (rule wellFormed_frame) simp_all
  show ?thesis
  proof (cases "mediaRecorder s")
    case None
    from w1 show ?thesis
      by (rule wellFormed_frame) (simp_all add: stopRecording_def Let_def None)
  next
    case (Some d)
    from w1 have "wellFormed (setDevice d (\<lambda>m. m\<lparr>stopListeners := stopListeners m + 1\<rparr>) ?s1)"
      by (rule wellFormed_setDevice) simp
    from wellFormed_stopDevice [OF this, of d] show ?thesis
      by (rule wellFormed_frame) (simp_all add: stopRecording_def Let_def Some)
  qed
qed

lemma wellFormed_gotMedia: "wellFormed s \<Longrightarrow> wellFormed (gotMedia now s)"
  by (auto simp: gotMedia_def wellFormed_def)

lemma wellFormed_step: "wellFormed s \<Longrightarrow> wellFormed (step e s)"
proof (cases e)
  case (GotMedia now)
  assume w: "wellFormed s"
  then have "wellFormed (s\<lparr>pendingMedia := pendingMedia s - 1\<rparr>)"
    by (rule wellFormed_frame) simp_all
  with w show ?thesis by (simp add: GotMedia step_def wellFormed_gotMedia)
next
  case (MediaFailed err)
  assume w: "wellFormed s"
  then have "wellFormed (mediaFailed err (s\<lparr>pendingMedia := pendingMedia s - 1\<rparr>))"
    by (rule wellFormed_frame) (simp_all add: mediaFailed_def split: option.splits)
  with w show ?thesis by (simp add: MediaFailed step_def)
next
  case (DataAvailable d x)
  assume w: "wellFormed s"
  then have "wellFormed (onDataAvailable x s)"
    by (rule wellFormed_frame) (simp_all add: onDataAvailable_def)
  with w show ?thesis by (simp add: DataAvailable step_def)
next
  case (Stopped d)
  assume w: "wellFormed s"
  then have "wellFormed (setDevice d (\<lambda>m. m\<lparr>stopPending := False\<rparr>) s)"
    by (rule wellFormed_setDevice) simp
  then have "wellFormed ((onStop ^^ stopListeners (devices s ! d)) (setDevice d (\<lambda>m. m\<lparr>stopPending := False\<rparr>) s))"
    by (rule wellFormed_frame) simp_all
  with w show ?thesis by (simp add: Stopped step_def)
next
  case (PlayPause now)
  assume w: "wellFormed s"
  from wellFormed_pauseRecording [OF w, of now]
  have a: "wellFormed (pauseRecording now s\<lparr>isRecording := b\<rparr>)" for b
    by (rule wellFormed_frame) simp_all
  from wellFormed_resumeOrStartRecording [OF w, of now]
  have b: "wellFormed (resumeOrStartRecording now s\<lparr>isRecording := b\<rparr>)" for b
    by (rule wellFormed_frame) simp_all
  from a b w show ?thesis by (simp add: PlayPause step_def)
next
  case Restart
  assume w: "wellFormed s"
  from wellFormed_hardReset [OF w] have "wellFormed (hardReset s\<lparr>isRecording := False\<rparr>)"
    by (rule wellFormed_frame) simp_all
  with w show ?thesis by (simp add: Restart step_def)
next
  case (Stop tr)
  assume w: "wellFormed s"
  with wellFormed_stopRecording [OF w, of tr] show ?thesis by (simp add: Stop step_def)
next
  case (Tick now)
  assume w: "wellFormed s"
  then have "wellFormed (tick now s)"
    by (rule wellFormed_frame) (simp_all add: tick_def Let_def)
  with w show ?thesis by (simp add: Tick step_def)
qed

lemma wellFormed_run: "wellFormed s \<Longrightarrow> wellFormed (run evs s)"
  by (induction evs arbitrary: s) (simp_all add: wellFormed_step)

lemma wellFormed_openModal: "wellFormed openModal"
  by (simp add: wellFormed_def openModal_def)

text \<open>
  The fragments that arrive while the \<^verbatim>\<open>stop\<close> event of a recorder is pending are
  appended, unless the discard flag is set.
\<close>

lemma data_delivered:
  "d < length (devices s) \<Longrightarrow> stopPending (devices s ! d) \<or> dstate (devices s ! d) \<noteq> Inactive \<Longrightarrow>
     run (map (DataAvailable d) zs) s
       = s\<lparr>chunks := (if isResetting s then chunks s else chunks s @ zs)\<rparr>"
proof (induction zs arbitrary: s)
  case Nil
  then show ?case by simp
next
  case (Cons z zs)
  show ?case
  proof (cases "isResetting s")
    case True
    with Cons.prems have "step (DataAvailable d z) s = s"
      by (simp add: step_def onDataAvailable_def)
    with Cons True show ?thesis by simp
  next
    case False
    with Cons.prems have e: "step (DataAvailable d z) s = s\<lparr>chunks := chunks s @ [z]\<rparr>"
      by (simp add: step_def onDataAvailable_def)
    from Cons.prems Cons.IH [of "s\<lparr>chunks := chunks s @ [z]\<rparr>"] False show ?thesis
      by (simp add: e)
  qed
qed

text \<open>
  Two runs of \<open>onStop\<close> settle the stored promise: the first may be spent on the discard
  flag. Further runs change nothing.
\<close>

lemma two_onStops:
  assumes "resolve s = Some p" and "p < length (promises s)"
    and "pstate (promises s ! p) = Pending" and "awaiter (promises s ! p) = Some tr"
  shows "isResetting (onStop (onStop s)) = False
       \<and> resolve (onStop (onStop s)) = Some p
       \<and> closed (onStop (onStop s))
       \<and> length (promises (onStop (onStop s))) = length (promises s)
       \<and> pstate (promises (onStop (onStop s)) ! p)
           = Resolved (Some \<lparr>parts = chunks s, btype = ''audio/wav''\<rparr>)
       \<and> handled (onStop (onStop s))
           = handled s @ [(Some \<lparr>parts = chunks s, btype = ''audio/wav''\<rparr>, tr)]"
  using assms by (cases "isResetting s") (simp_all add: onStop_def settle_def Let_def)

lemma onStop_fix:
  assumes "\<not> isResetting s" and "resolve s = Some p" and "closed s"
    and "p < length (promises s)" and "pstate (promises s ! p) \<noteq> Pending"
  shows "onStop s = s"
  using assms by (cases s) (simp add: onStop_def settle_def Let_def)

lemma onStops_fix:
  assumes "\<not> isResetting s" and "resolve s = Some p" and "closed s"
    and "p < length (promises s)" and "pstate (promises s ! p) \<noteq> Pending"
  shows "(onStop ^^ n) s = s"
  by (induction n) (simp_all add: onStop_fix [OF assms])

lemma many_onStops:
  assumes "resolve s = Some p" and "p < length (promises s)"
    and "pstate (promises s ! p) = Pending" and "awaiter (promises s ! p) = Some tr"
    and "2 \<le> n"
  shows "(onStop ^^ n) s = onStop (onStop s)"
proof -
  from assms(5) obtain k where n: "n = Suc (Suc k)"
    by (metis Suc_le_D numeral_2_eq_2 Suc_le_mono)
  have "(onStop ^^ n) s = (onStop ^^ k) (onStop (onStop s))"
    unfolding n by (simp add: funpow_swap1)
  also have "\<dots> = onStop (onStop s)"
    using two_onStops [OF assms(1-4)] assms(2) by (intro onStops_fix [of _ p]) simp_all
  finally show ?thesis .
qed

lemma stopRecording_held:
  assumes "mediaRecorder s = Some d" and "d < length (devices s)"
    and "dstate (devices s ! d) \<noteq> Inactive"
  shows "promises (stopRecording tr s) = promises s @ [\<lparr>pstate = Pending, awaiter = Some tr\<rparr>]"
    and "resolve (stopRecording tr s) = Some (length (promises s))"
    and "chunks (stopRecording tr s) = chunks s"
    and "isResetting (stopRecording tr s) = isResetting s"
    and "handled (stopRecording tr s) = handled s"
    and "length (devices (stopRecording tr s)) = length (devices s)"
    and "stopPending (devices (stopRecording tr s) ! d)"
    and "stopListeners (devices (stopRecording tr s) ! d) = stopListeners (devices s ! d) + 1"
  using assms
  by (simp_all add: stopRecording_def Let_def stopDevice_def setDevice_def stopTimer_def)

lemma stop_sequence:
  assumes "wellFormed s" and "mediaRecorder s = Some d"
    and "dstate (devices s ! d) \<noteq> Inactive" and "\<not> closed s"
  shows "pstate (promises (run (Stop tr # map (DataAvailable d) zs @ [Stopped d]) s) ! length (promises s))
           = Resolved (Some \<lparr>parts = (if isResetting s then chunks s else chunks s @ zs),
                               btype = ''audio/wav''\<rparr>)
       \<and> length (promises s) < length (promises (run (Stop tr # map (DataAvailable d) zs @ [Stopped d]) s))
       \<and> handled (run (Stop tr # map (DataAvailable d) zs @ [Stopped d]) s)
           = handled s @ [(Some \<lparr>parts = (if isResetting s then chunks s else chunks s @ zs),
                                     btype = ''audio/wav''\<rparr>, tr)]"
proof -
  let ?p = "length (promises s)"
  let ?s1 = "stopRecording tr s"
  let ?s2 = "?s1\<lparr>chunks := (if isResetting ?s1 then chunks ?s1 else chunks ?s1 @ zs)\<rparr>"
  let ?s3 = "setDevice d (\<lambda>m. m\<lparr>stopPending := False\<rparr>) ?s2"
  from assms(1,2) have dl: "d < length (devices s)" and sl: "0 < stopListeners (devices s ! d)"
    by (auto simp: wellFormed_def)
  note h = stopRecording_held [OF assms(2) dl assms(3), of tr]
  have r1: "run (map (DataAvailable d) zs) ?s1 = ?s2"
    using h(6,7) dl by (intro data_delivered) simp_all
  have r2: "step (Stopped d) ?s2 = (onStop ^^ (stopListeners (devices s ! d) + 1)) ?s3"
    using h(6,7,8) dl by (simp add: step_def)
  have r3: "(onStop ^^ (stopListeners (devices s ! d) + 1)) ?s3 = onStop (onStop ?s3)"
    using sl h(1,2) by (intro many_onStops [where p = ?p and tr = tr]) (simp_all add: setDevice_def nth_append)
  have "run (Stop tr # map (DataAvailable d) zs @ [Stopped d]) s
      = step (Stopped d) (run (map (DataAvailable d) zs) ?s1)"
    using assms(4) by (simp add: run_append step_def [of "Stop tr"])
  also have "\<dots> = onStop (onStop ?s3)"
    unfolding r1 r2 r3 ..
  finally have r: "run (Stop tr # map (DataAvailable d) zs @ [Stopped d]) s = onStop (onStop ?s3)" .
  have t: "resolve ?s3 = Some ?p" "?p < length (promises ?s3)"
    "pstate (promises ?s3 ! ?p) = Pending" "awaiter (promises ?s3 ! ?p) = Some tr"
    using h(1,2) by (simp_all add: setDevice_def nth_append)
  have c: "chunks ?s3 = (if isResetting s then chunks s else chunks s @ zs)"
    "handled ?s3 = handled s" "length (promises ?s3) = Suc ?p"
    using h(1,3,4,5) by (simp_all add: setDevice_def)
  from two_onStops [OF t] show ?thesis unfolding r c by simp
qed

text \<open>
  Between the click and the \<^verbatim>\<open>stop\<close> event, quiet events leave the promise, the stored
  functions and the stopped recorder as they are.
\<close>

lemma quiet_step:
  assumes "quiet e" and "resolve s = Some p" and "p < length (promises s)"
    and "pstate (promises s ! p) = Pending" and "d < length (devices s)"
    and "stopPending (devices s ! d)" and "dstate (devices s ! d) = Inactive" and "\<not> closed s"
  shows "resolve (step e s) = Some p \<and> promises (step e s) = promises s
       \<and> d < length (devices (step e s)) \<and> devices (step e s) ! d = devices s ! d
       \<and> \<not> closed (step e s) \<and> handled (step e s) = handled s
       \<and> isResetting (step e s) = isResetting s"
  using assms
  by (cases e)
     (auto simp: quiet_def step_def gotMedia_def onDataAvailable_def pauseRecording_def
        resumeOrStartRecording_def startRecording_def tick_def setDevice_def stateOf_def
        stopTimer_def startTimer_def Let_def nth_append nth_list_update split: option.splits)

lemma quiet_run:
  assumes "list_all quiet mid" and "resolve s = Some p" and "p < length (promises s)"
    and "pstate (promises s ! p) = Pending" and "d < length (devices s)"
    and "stopPending (devices s ! d)" and "dstate (devices s ! d) = Inactive" and "\<not> closed s"
  shows "resolve (run mid s) = Some p \<and> promises (run mid s) = promises s
       \<and> d < length (devices (run mid s)) \<and> devices (run mid s) ! d = devices s ! d
       \<and> \<not> closed (run mid s) \<and> handled (run mid s) = handled s
       \<and> isResetting (run mid s) = isResetting s"
  using assms
proof (induction mid arbitrary: s)
  case Nil
  then show ?case by simp
next
  case (Cons e mid)
  from Cons.prems have q: "quiet e" and qs: "list_all quiet mid" by simp_all
  note a = quiet_step [OF q Cons.prems(2-8)]
  from a Cons.prems have b: "resolve (step e s) = Some p" "p < length (promises (step e s))"
    "pstate (promises (step e s) ! p) = Pending" "d < length (devices (step e s))"
    "stopPending (devices (step e s) ! d)" "dstate (devices (step e s) ! d) = Inactive"
    "\<not> closed (step e s)"
    by simp_all
  from Cons.IH [OF qs b] a show ?case by simp
qed

lemma stop_then_quiet:
  assumes "wellFormed s" and "mediaRecorder s = Some d"
    and "dstate (devices s ! d) \<noteq> Inactive" and "\<not> closed s" and "list_all quiet mid"
  shows "pstate (promises (run (Stop tr # mid) s) ! length (promises s)) = Pending"
    and "handled (run (Stop tr # mid) s) = handled s"
    and "pstate (promises (run (Stop tr # mid @ [Stopped d]) s) ! length (promises s))
           = Resolved (Some \<lparr>parts = chunks (run (Stop tr # mid) s), btype = ''audio/wav''\<rparr>)"
    and "length (promises s) < length (promises (run (Stop tr # mid @ [Stopped d]) s))"
    and "handled (run (Stop tr # mid @ [Stopped d]) s)
           = handled s @ [(Some \<lparr>parts = chunks (run (Stop tr # mid) s), btype = ''audio/wav''\<rparr>, tr)]"
proof -
  let ?p = "length (promises s)"
  let ?s1 = "stopRecording tr s"
  let ?s2 = "run mid ?s1"
  let ?s3 = "setDevice d (\<lambda>m. m\<lparr>stopPending := False\<rparr>) ?s2"
  from assms(1,2) have dl: "d < length (devices s)" and sl: "0 < stopListeners (devices s ! d)"
    by (auto simp: wellFormed_def)
  note h = stopRecording_held [OF assms(2) dl assms(3), of tr]
  have i: "dstate (devices ?s1 ! d) = Inactive"
    using assms(2,3) dl by (simp add: stopRecording_def Let_def stopDevice_def setDevice_def)
  have c1: "\<not> closed ?s1"
    using assms(2,4) by (simp add: stopRecording_def Let_def stopDevice_def setDevice_def)
  have e1: "run (Stop tr # mid) s = ?s2"
    using assms(4) by (simp add: step_def)
  have pre: "resolve ?s1 = Some ?p" "?p < length (promises ?s1)" "pstate (promises ?s1 ! ?p) = Pending"
    "d < length (devices ?s1)" "stopPending (devices ?s1 ! d)"
    using h dl by (simp_all add: nth_append)
  note q = quiet_run [OF assms(5) pre(1-5) i c1]
  from q h(1) show "pstate (promises (run (Stop tr # mid) s) ! length (promises s)) = Pending"
    unfolding e1 by (simp add: nth_append)
  from q h(5) show "handled (run (Stop tr # mid) s) = handled s"
    unfolding e1 by simp
  have r2: "step (Stopped d) ?s2 = (onStop ^^ (stopListeners (devices s ! d) + 1)) ?s3"
    using q h(7,8) by (simp add: step_def)
  have t: "resolve ?s3 = Some ?p" "?p < length (promises ?s3)"
    "pstate (promises ?s3 ! ?p) = Pending" "awaiter (promises ?s3 ! ?p) = Some tr"
    using q h(1) by (simp_all add: setDevice_def nth_append)
  have r3: "(onStop ^^ (stopListeners (devices s ! d) + 1)) ?s3 = onStop (onStop ?s3)"
    using sl by (intro many_onStops [OF t]) simp
  have "run (Stop tr # mid @ [Stopped d]) s = step (Stopped d) ?s2"
    using assms(4) by (simp add: run_append step_def [of "Stop tr"])
  also have "\<dots> = onStop (onStop ?s3)"
    unfolding r2 r3 ..
  finally have r: "run (Stop tr # mid @ [Stopped d]) s = onStop (onStop ?s3)" .
  have c: "chunks ?s3 = chunks (run (Stop tr # mid) s)" "handled ?s3 = handled s"
    "length (promises ?s3) = Suc ?p"
    using q h(1,5) unfolding e1 by (simp_all add: setDevice_def)
  from two_onStops [OF t] show "pstate (promises (run (Stop tr # mid @ [Stopped d]) s) ! length (promises s))
           = Resolved (Some \<lparr>parts = chunks (run (Stop tr # mid) s), btype = ''audio/wav''\<rparr>)"
    and "length (promises s) < length (promises (run (Stop tr # mid @ [Stopped d]) s))"
    and "handled (run (Stop tr # mid @ [Stopped d]) s)
           = handled s @ [(Some \<lparr>parts = chunks (run (Stop tr # mid) s), btype = ''audio/wav''\<rparr>, tr)]"
    unfolding r c by simp_all
qed

lemma stop_then_fragments:
  assumes "wellFormed s" and "mediaRecorder s = Some d"
    and "dstate (devices s ! d) \<noteq> Inactive" and "\<not> closed s"
  shows "chunks (run (Stop tr # map (DataAvailable d) zs) s)
       = (if isResetting s then chunks s else chunks s @ zs)"
proof -
  from assms(1,2) have dl: "d < length (devices s)" by (auto simp: wellFormed_def)
  note h = stopRecording_held [OF assms(2) dl assms(3), of tr]
  have "run (map (DataAvailable d) zs) (stopRecording tr s)
      = (stopRecording tr s)\<lparr>chunks := (if isResetting (stopRecording tr s)
            then chunks (stopRecording tr s) else chunks (stopRecording tr s) @ zs)\<rparr>"
    using h(6,7) dl by (intro data_delivered) simp_all
  with h(3,4) assms(4) show ?thesis by (simp add: step_def)
qed

text \<open>At most one artifact is handed over in a session.\<close>

lemma artifacts_settle:
  "artifacts (settle p v s) =
     artifacts s @
       (if p < length (promises s) \<and> pstate (promises s ! p) = Pending
        then (case (v, awaiter (promises s ! p)) of
                (Resolved (Some b), Some tr) \<Rightarrow> [(b, tr)]
              | _ \<Rightarrow> [])
        else [])"
  by (auto simp: artifacts_def settle_def split: pstate.splits option.splits)

lemma artifacts_frame:
  "handled s' = handled s \<Longrightarrow> artifacts s' = artifacts s"
  by (simp add: artifacts_def)

lemma delivered_frame:
  "delivered s \<Longrightarrow> handled s' = handled s \<Longrightarrow> closed s' = closed s \<Longrightarrow> resolve s' = resolve s
     \<Longrightarrow> promises s' = promises s \<Longrightarrow> delivered s'"
  by (simp add: delivered_def artifacts_frame [of s' s] split: option.splits)

lemma delivered_onStop: "delivered s \<Longrightarrow> delivered (onStop s)"
proof -
  assume a: "delivered s"
  show ?thesis
  proof (cases "isResetting s")
    case True
    from a have "delivered (s\<lparr>isResetting := False\<rparr>)" by (rule delivered_frame) simp_all
    with True show ?thesis by (simp add: onStop_def)
  next
    case False
    show ?thesis
    proof (cases "resolve s")
      case None
      with False a show ?thesis by (simp add: onStop_def Let_def)
    next
      case (Some p)
      let ?v = "Resolved (Some \<lparr>parts = chunks s, btype = ''audio/wav''\<rparr>)"
      have o: "onStop s = (settle p ?v s)\<lparr>closed := True\<rparr>"
        using False Some by (simp add: onStop_def Let_def)
      show ?thesis
      proof (cases "p < length (promises s) \<and> pstate (promises s ! p) = Pending")
        case True
        with a Some have e: "artifacts s = []" by (auto simp: delivered_def)
        from True have n: "pstate (promises (settle p ?v s) ! p) \<noteq> Pending"
          by (simp add: settle_def)
        have l: "length (artifacts (settle p ?v s)) \<le> 1"
          unfolding artifacts_settle e using True by (simp split: option.splits)
        from l n True Some show ?thesis unfolding o delivered_def
          by (cases "artifacts (settle p ?v s)") (simp_all add: artifacts_def)
      next
        case False
        then have "settle p ?v s = s" by (auto simp: settle_def)
        with a Some show ?thesis unfolding o
          by (auto simp: delivered_def artifacts_def)
      qed
    qed
  qed
qed

lemma delivered_onStops: "delivered s \<Longrightarrow> delivered ((onStop ^^ n) s)"
  by (induction n) (simp_all add: delivered_onStop)

lemma delivered_mediaFailed: "delivered s \<Longrightarrow> delivered (mediaFailed err s)"
proof (cases "resolve s")
  case None
  assume "delivered s"
  with None show ?thesis by (simp add: mediaFailed_def)
next
  case (Some p)
  assume a: "delivered s"
  have h: "artifacts (settle p (Rejected err) s) = artifacts s"
    unfolding artifacts_settle by simp
  show ?thesis
  proof (cases "artifacts s = []")
    case True
    with h Some show ?thesis by (simp add: delivered_def mediaFailed_def)
  next
    case False
    with a Some have "p < length (promises s)" "pstate (promises s ! p) \<noteq> Pending"
      by (auto simp: delivered_def)
    then have "settle p (Rejected err) s = s" by (simp add: settle_def)
    with a Some show ?thesis by (simp add: mediaFailed_def)
  qed
qed

lemma delivered_stopRecording:
  assumes "delivered s" and "\<not> closed s"
  shows "delivered (stopRecording tr s)"
proof -
  from assms have e: "artifacts s = []" by (auto simp: delivered_def)
  have "artifacts (stopRecording tr s) = []"
  proof (cases "mediaRecorder s")
    case None
    then show ?thesis
      using e by (simp add: stopRecording_def Let_def artifacts_settle nth_append)
         (simp add: artifacts_def)
  next
    case (Some d)
    then have "handled (stopRecording tr s) = handled s"
      by (simp add: stopRecording_def Let_def stopDevice_def setDevice_def)
    from artifacts_frame [OF this] e show ?thesis by simp
  qed
  then show ?thesis by (simp add: delivered_def)
qed

lemma delivered_step: "delivered s \<Longrightarrow> delivered (step e s)"
proof (cases e)
  case (GotMedia now)
  assume a: "delivered s"
  then have "delivered (gotMedia now (s\<lparr>pendingMedia := pendingMedia s - 1\<rparr>))"
    by (rule delivered_frame) (simp_all add: gotMedia_def)
  with a show ?thesis by (simp add: GotMedia step_def)
next
  case (MediaFailed err)
  assume a: "delivered s"
  then have "delivered (s\<lparr>pendingMedia := pendingMedia s - 1\<rparr>)"
    by (rule delivered_frame) simp_all
  from delivered_mediaFailed [OF this] a show ?thesis by (simp add: MediaFailed step_def)
next
  case (DataAvailable d x)
  assume a: "delivered s"
  then have "delivered (onDataAvailable x s)"
    by (rule delivered_frame) (simp_all add: onDataAvailable_def)
  with a show ?thesis by (simp add: DataAvailable step_def)
next
  case (Stopped d)
  assume a: "delivered s"
  then have "delivered (setDevice d (\<lambda>m. m\<lparr>stopPending := False\<rparr>) s)"
    by (rule delivered_frame) (simp_all add: setDevice_def)
  from delivered_onStops [OF this] a show ?thesis by (simp add: Stopped step_def)
next
  case (PlayPause now)
  assume a: "delivered s"
  then have "delivered (pauseRecording now s\<lparr>isRecording := b\<rparr>)" for b
    by (rule delivered_frame)
       (simp_all add: pauseRecording_def setDevice_def stopTimer_def Let_def split: option.splits)
  moreover from a have "delivered (resumeOrStartRecording now s\<lparr>isRecording := b\<rparr>)" for b
    by (rule delivered_frame)
       (simp_all add: resumeOrStartRecording_def startRecording_def setDevice_def Let_def
          split: option.splits)
  ultimately show ?thesis using a by (simp add: PlayPause step_def)
next
  case Restart
  assume a: "delivered s"
  then have "delivered (hardReset s\<lparr>isRecording := False\<rparr>)"
    by (rule delivered_frame)
       (simp_all add: hardReset_def stopDevice_def setDevice_def stopTimer_def Let_def
          split: option.splits)
  with a show ?thesis by (simp add: Restart step_def)
next
  case (Stop tr)
  assume a: "delivered s"
  with delivered_stopRecording [OF a, of tr] show ?thesis by (simp add: Stop step_def)
next
  case (Tick now)
  assume a: "delivered s"
  then have "delivered (tick now s)"
    by (rule delivered_frame) (simp_all add: tick_def Let_def)
  with a show ?thesis by (simp add: Tick step_def)
qed

lemma delivered_run: "delivered s \<Longrightarrow> delivered (run evs s)"
  by (induction evs arbitrary: s) (simp_all add: delivered_step)

lemma delivered_openModal: "delivered openModal"
  by (simp add: delivered_def artifacts_def openModal_def)

lemma at_most_one_artifact: "length (artifacts (run evs openModal)) \<le> 1"
  using delivered_run [OF delivered_openModal, of evs] by (auto simp: delivered_def)

text \<open>
  Clicks that are not quiet: a second click on stop or transcribe takes over the stored
  functions, so that the promise of the first click is never settled and the artifact
  goes to the second; a click on restart empties the buffer, and the artifact is empty.
\<close>

lemma clicks_before_the_stop_event:
  "pstate (promises (run [GotMedia 0, DataAvailable 0 ''a'', Stop True, Stop False,
                           DataAvailable 0 ''b'', Stopped 0] openModal) ! 1) = Pending
   \<and> handled (run [GotMedia 0, DataAvailable 0 ''a'', Stop True, Stop False,
                     DataAvailable 0 ''b'', Stopped 0] openModal)
       = [(Some \<lparr>parts = [''a'', ''b''], btype = ''audio/wav''\<rparr>, False)]
   \<and> handled (run [GotMedia 0, DataAvailable 0 ''a'', Stop True, Restart,
                     DataAvailable 0 ''b'', Stopped 0] openModal)
       = [(Some \<lparr>parts = [], btype = ''audio/wav''\<rparr>, True)]"
  by code_simp

text \<open>
  C6 (as amended). In every state \<open>s\<close> a session can reach: while no microphone request
  has been answered no recorder is held; a click on stop or transcribe while no
  recorder is held resolves the promise of \<open>stopRecording\<close> with \<^verbatim>\<open>null\<close> and hands
  \<^verbatim>\<open>null\<close> to \<open>handleAudioRecording\<close>; after a click while a recorder is held and recording
  or paused, when only fragments, granted microphone requests, clicks on play/pause and
  timer callbacks come before the recorder's \<^verbatim>\<open>stop\<close> event, the promise stays pending
  and nothing is handed over until that event, which hands \<open>handleAudioRecording\<close>
  exactly one artifact, the blob of the fragments buffered at that moment (when the
  recorder's own last fragments come in between: the buffer of the click followed by
  them, or the buffer of the click alone when the discard flag is set); the promise is
  resolved with that artifact and keeps it through every later event. No session hands
  \<open>handleAudioRecording\<close> more than one artifact.
\<close>

theorem stop_settles_the_future_once:
  assumes "s = run evs openModal"
  shows "((\<forall>e\<in>set evs. \<not> isGotMedia e) \<longrightarrow> mediaRecorder s = None \<and> \<not> closed s)
       \<and> (mediaRecorder s = None \<and> \<not> closed s \<longrightarrow>
            pstate (promises (step (Stop tr) s) ! length (promises s)) = Resolved None
            \<and> handled (step (Stop tr) s) = handled s @ [(None, tr)])
       \<and> (mediaRecorder s = Some d \<and> dstate (devices s ! d) \<noteq> Inactive \<and> \<not> closed s
            \<and> list_all quiet mid \<longrightarrow>
            pstate (promises (run (Stop tr # mid) s) ! length (promises s)) = Pending
            \<and> handled (run (Stop tr # mid) s) = handled s
            \<and> handled (run (Stop tr # mid @ [Stopped d]) s)
              = handled s @ [(Some \<lparr>parts = chunks (run (Stop tr # mid) s),
                                        btype = ''audio/wav''\<rparr>, tr)]
            \<and> (\<forall>later.
                  pstate (promises (run later (run (Stop tr # mid @ [Stopped d]) s))
                            ! length (promises s))
                    = Resolved (Some \<lparr>parts = chunks (run (Stop tr # mid) s),
                                        btype = ''audio/wav''\<rparr>)))
       \<and> (mediaRecorder s = Some d \<and> dstate (devices s ! d) \<noteq> Inactive \<and> \<not> closed s \<longrightarrow>
            chunks (run (Stop tr # map (DataAvailable d) zs) s)
              = (if isResetting s then chunks s else chunks s @ zs))
       \<and> length (artifacts s) \<le> 1"
proof (intro conjI impI allI)
  assume "\<forall>e\<in>set evs. \<not> isGotMedia e"
  from no_media_run [OF this, of openModal]
  show "mediaRecorder s = None" and "\<not> closed s"
    by (simp_all add: assms openModal_def)
next
  assume "mediaRecorder s = None \<and> \<not> closed s"
  with stopRecording_null [of s tr]
  show "pstate (promises (step (Stop tr) s) ! length (promises s)) = Resolved None"
    and "handled (step (Stop tr) s) = handled s @ [(None, tr)]"
    by (simp_all add: step_def)
next
  assume a: "mediaRecorder s = Some d \<and> dstate (devices s ! d) \<noteq> Inactive \<and> \<not> closed s
     \<and> list_all quiet mid"
  have w: "wellFormed s"
    unfolding assms by (rule wellFormed_run [OF wellFormed_openModal])
  from a have b: "mediaRecorder s = Some d" "dstate (devices s ! d) \<noteq> Inactive" "\<not> closed s"
    "list_all quiet mid" by simp_all
  note q = stop_then_quiet [OF w b, of tr]
  from q(1) show "pstate (promises (run (Stop tr # mid) s) ! length (promises s)) = Pending" .
  from q(2) show "handled (run (Stop tr # mid) s) = handled s" .
  from q(5) show "handled (run (Stop tr # mid @ [Stopped d]) s)
              = handled s @ [(Some \<lparr>parts = chunks (run (Stop tr # mid) s),
                                        btype = ''audio/wav''\<rparr>, tr)]" .
  fix later
  from run_settled [OF q(4), of later] q(3)
  show "pstate (promises (run later (run (Stop tr # mid @ [Stopped d]) s)) ! length (promises s))
          = Resolved (Some \<lparr>parts = chunks (run (Stop tr # mid) s), btype = ''audio/wav''\<rparr>)"
    by simp
next
  assume a: "mediaRecorder s = Some d \<and> dstate (devices s ! d) \<noteq> Inactive \<and> \<not> closed s"
  have w: "wellFormed s"
    unfolding assms by (rule wellFormed_run [OF wellFormed_openModal])
  from a stop_then_fragments [OF w, of d tr zs]
  show "chunks (run (Stop tr # map (DataAvailable d) zs) s)
          = (if isResetting s then chunks s else chunks s @ zs)"
    by simp
next
  show "length (artifacts s) \<le> 1"
    unfolding assms by (rule at_most_one_artifact)
qed

theorem stop_settles_the_future_once_witness:
  "\<not> isGotMedia (PlayPause 5)
   \<and> handled (run [PlayPause 5, Stop False] openModal) = [(None, False)]
   \<and> mediaRecorder (run [GotMedia 0, DataAvailable 0 ''a''] openModal) = Some 0
   \<and> dstate (devices (run [GotMedia 0, DataAvailable 0 ''a''] openModal) ! 0) = Recording
   \<and> \<not> closed (run [GotMedia 0, DataAvailable 0 ''a''] openModal)
   \<and> list_all quiet [DataAvailable 0 ''b'', PlayPause 7, Tick 8]
   \<and> pstate (promises (run [GotMedia 0, DataAvailable 0 ''a'', Stop True, DataAvailable 0 ''b'',
                               PlayPause 7, Tick 8] openModal) ! 1) = Pending
   \<and> handled (run [GotMedia 0, DataAvailable 0 ''a'', Stop True, DataAvailable 0 ''b'',
                     PlayPause 7, Tick 8, Stopped 0] openModal)
       = [(Some \<lparr>parts = [''a'', ''b''], btype = ''audio/wav''\<rparr>, True)]
   \<and> pstate (promises (run [GotMedia 0, DataAvailable 0 ''a'', Stop True, DataAvailable 0 ''b'',
                               PlayPause 7, Tick 8, Stopped 0, Stopped 0, Restart, Tick 9] openModal) ! 1)
       = Resolved (Some \<lparr>parts = [''a'', ''b''], btype = ''audio/wav''\<rparr>)
   \<and> length (artifacts (run [GotMedia 0, DataAvailable 0 ''a'', Stop True, DataAvailable 0 ''b'',
                               PlayPause 7, Tick 8, Stopped 0] openModal)) = 1
   \<and> chunks (run [GotMedia 0, DataAvailable 0 ''a'', Stop True, DataAvailable 0 ''b'',
                     DataAvailable 0 ''c''] openModal) = [''a'', ''b'', ''c'']"
proof -
  let ?u = "run [PlayPause 5] openModal"
  let ?v = "run [GotMedia 0, DataAvailable 0 ''a''] openModal"
  let ?mid = "[DataAvailable 0 ''b'', PlayPause 7, Tick 8]"
  have n: "\<not> isGotMedia (PlayPause 5)" by (simp add: isGotMedia_def)
  then have "\<forall>e\<in>set [PlayPause 5]. \<not> isGotMedia e" by simp
  with stop_settles_the_future_once [OF refl, where evs = "[PlayPause 5]" and tr = False]
  have "handled (step (Stop False) ?u) = handled ?u @ [(None, False)]" by blast
  moreover have "handled ?u = []" by code_simp
  ultimately have a: "handled (run [PlayPause 5, Stop False] openModal) = [(None, False)]" by simp
  have h: "mediaRecorder ?v = Some 0" "dstate (devices ?v ! 0) = Recording" "\<not> closed ?v"
    "list_all quiet ?mid"
    by code_simp+
  have g: "handled ?v = []" "length (promises ?v) = 1"
    "chunks (run (Stop True # ?mid) ?v) = [''a'', ''b'']"
    by code_simp+
  from h stop_settles_the_future_once [OF refl, where evs = "[GotMedia 0, DataAvailable 0 ''a'']"
      and d = 0 and tr = True and mid = ?mid]
  have b0: "pstate (promises (run (Stop True # ?mid) ?v) ! length (promises ?v)) = Pending"
    and b: "handled (run (Stop True # ?mid @ [Stopped 0]) ?v)
            = handled ?v @ [(Some \<lparr>parts = chunks (run (Stop True # ?mid) ?v), btype = ''audio/wav''\<rparr>, True)]"
    and call: "\<forall>later. pstate (promises (run later (run (Stop True # ?mid @ [Stopped 0]) ?v))
                  ! length (promises ?v))
            = Resolved (Some \<lparr>parts = chunks (run (Stop True # ?mid) ?v), btype = ''audio/wav''\<rparr>)"
    by simp_all
  from b0 g have b0': "pstate (promises (run [GotMedia 0, DataAvailable 0 ''a'', Stop True,
        DataAvailable 0 ''b'', PlayPause 7, Tick 8] openModal) ! 1) = Pending"
    by simp
  from b g have b': "handled (run [GotMedia 0, DataAvailable 0 ''a'', Stop True, DataAvailable 0 ''b'',
                     PlayPause 7, Tick 8, Stopped 0] openModal)
       = [(Some \<lparr>parts = [''a'', ''b''], btype = ''audio/wav''\<rparr>, True)]"
    by simp
  from call [rule_format, of "[Stopped 0, Restart, Tick 9]"] g
  have c: "pstate (promises (run [GotMedia 0, DataAvailable 0 ''a'', Stop True, DataAvailable 0 ''b'',
                PlayPause 7, Tick 8, Stopped 0, Stopped 0, Restart, Tick 9] openModal) ! 1)
            = Resolved (Some \<lparr>parts = [''a'', ''b''], btype = ''audio/wav''\<rparr>)"
    by simp
  from b' have d: "length (artifacts (run [GotMedia 0, DataAvailable 0 ''a'', Stop True,
        DataAvailable 0 ''b'', PlayPause 7, Tick 8, Stopped 0] openModal)) = 1"
    by (simp add: artifacts_def)
  have k: "isResetting ?v = False" "chunks ?v = [''a'']" by code_simp+
  from h(1-3) stop_settles_the_future_once [OF refl, where evs = "[GotMedia 0, DataAvailable 0 ''a'']"
      and d = 0 and tr = True and zs = "[''b'', ''c'']"]
  have "chunks (run (Stop True # map (DataAvailable 0) [''b'', ''c'']) ?v)
      = (if isResetting ?v then chunks ?v else chunks ?v @ [''b'', ''c''])"
    by simp
  with k have e: "chunks (run [GotMedia 0, DataAvailable 0 ''a'', Stop True, DataAvailable 0 ''b'',
                     DataAvailable 0 ''c''] openModal) = [''a'', ''b'', ''c'']"
    by simp
  from n a h b0' b' c d e show ?thesis by simp
qed

text \<open>
  C6 as stated fails: a recorder was acquired and delivered a fragment, restart
  released it, and the stop that follows resolves with \<^verbatim>\<open>null\<close>: no artifact.
\<close>

theorem stop_after_restart_yields_null:
  "length (devices (run [GotMedia 0, DataAvailable 0 ''a'', Restart, Stop True] openModal)) = 1
   \<and> handled (run [GotMedia 0, DataAvailable 0 ''a'', Restart, Stop True] openModal) = [(None, True)]"
  by code_simp

section \<open>Restarting a session\<close>

text \<open>
  One restart while a recorder is held: the stale fragments and the stale \<^verbatim>\<open>stop\<close> event
  are dropped, and the artifact of the next recording holds the fragments of the new
  recorder alone.
\<close>

lemma restart_drops_the_old_recorder:
  assumes "wellFormed s" and "mediaRecorder s = Some d" and "dstate (devices s ! d) \<noteq> Inactive"
    and "stopListeners (devices s ! d) = 1" and "\<not> closed s"
  shows "run (Restart # map (DataAvailable d) stale @ [Stopped d]) s
       = (setDevice d (\<lambda>m. m\<lparr>stopPending := False\<rparr>) (step Restart s))\<lparr>isResetting := False\<rparr>"
    and "chunks (step Restart s) = []" and "mediaRecorder (step Restart s) = None"
    and "\<not> closed (step Restart s)" and "\<not> isRecording (step Restart s)"
    and "handled (step Restart s) = handled s" and "length (devices (step Restart s)) = length (devices s)"
proof -
  from assms(1,2) have dl: "d < length (devices s)" by (simp add: wellFormed_def)
  let ?r = "step Restart s"
  have f: "isResetting ?r" "chunks ?r = []" "length (devices ?r) = length (devices s)"
    "stopPending (devices ?r ! d)" "stopListeners (devices ?r ! d) = 1"
    "mediaRecorder ?r = None" "\<not> closed ?r" "\<not> isRecording ?r" "handled ?r = handled s"
    using assms dl
    by (simp_all add: step_def hardReset_def stopDevice_def setDevice_def stopTimer_def Let_def)
  from f show "chunks ?r = []" "mediaRecorder ?r = None" "\<not> closed ?r" "\<not> isRecording ?r"
    "handled ?r = handled s" "length (devices ?r) = length (devices s)" by simp_all
  have "run (map (DataAvailable d) stale) ?r = ?r"
    using data_delivered [of d ?r stale] f dl by simp
  then have "run (Restart # map (DataAvailable d) stale @ [Stopped d]) s = step (Stopped d) ?r"
    by (simp add: run_append)
  also have "\<dots> = onStop (setDevice d (\<lambda>m. m\<lparr>stopPending := False\<rparr>) ?r)"
    using f dl by (simp add: step_def [of "Stopped d"])
  also have "\<dots> = (setDevice d (\<lambda>m. m\<lparr>stopPending := False\<rparr>) ?r)\<lparr>isResetting := False\<rparr>"
    using f by (simp add: onStop_def setDevice_def)
  finally show "run (Restart # map (DataAvailable d) stale @ [Stopped d]) s
       = (setDevice d (\<lambda>m. m\<lparr>stopPending := False\<rparr>) ?r)\<lparr>isResetting := False\<rparr>" .
qed

lemma fresh_recording_after_one_restart:
  assumes "wellFormed s" and "mediaRecorder s = Some d" and "dstate (devices s ! d) \<noteq> Inactive"
    and "stopListeners (devices s ! d) = 1" and "\<not> closed s"
  shows "handled (run (Restart # map (DataAvailable d) stale @ [Stopped d]
                        @ [PlayPause t1, GotMedia t2]
                        @ map (DataAvailable (length (devices s))) ys
                        @ Stop tr # map (DataAvailable (length (devices s))) zs
                        @ [Stopped (length (devices s))]) s)
       = handled s @ [(Some \<lparr>parts = ys @ zs, btype = ''audio/wav''\<rparr>, tr)]"
proof -
  let ?n = "length (devices s)"
  let ?a = "run (Restart # map (DataAvailable d) stale @ [Stopped d]) s"
  let ?b = "run [PlayPause t1, GotMedia t2] ?a"
  let ?c = "run (map (DataAvailable ?n) ys) ?b"
  note r = restart_drops_the_old_recorder [OF assms]
  have wa: "wellFormed ?a"
    by (rule wellFormed_run [OF assms(1)])
  have a: "chunks ?a = []" "\<not> isResetting ?a" "mediaRecorder ?a = None" "\<not> closed ?a"
    "\<not> isRecording ?a" "handled ?a = handled s" "length (devices ?a) = ?n"
    unfolding r(1) using r(2-7) by (simp_all add: setDevice_def)
  have wb: "wellFormed ?b" by (rule wellFormed_run [OF wa])
  have b: "chunks ?b = []" "\<not> isResetting ?b" "mediaRecorder ?b = Some ?n" "\<not> closed ?b"
    "handled ?b = handled s" "length (devices ?b) = Suc ?n" "dstate (devices ?b ! ?n) = Recording"
    using a
    by (simp_all add: step_def resumeOrStartRecording_def startRecording_def startTimer_def
        stopTimer_def gotMedia_def Let_def nth_append)
  have c: "?c = ?b\<lparr>chunks := ys\<rparr>"
    using data_delivered [of ?n ?b ys] b by simp
  have wc: "wellFormed ?c" by (rule wellFormed_run [OF wb])
  have "run (Restart # map (DataAvailable d) stale @ [Stopped d]
                        @ [PlayPause t1, GotMedia t2]
                        @ map (DataAvailable ?n) ys
                        @ Stop tr # map (DataAvailable ?n) zs @ [Stopped ?n]) s
      = run (Stop tr # map (DataAvailable ?n) zs @ [Stopped ?n]) ?c"
    by (simp add: run_append)
  moreover have "mediaRecorder ?c = Some ?n" "dstate (devices ?c ! ?n) \<noteq> Inactive" "\<not> closed ?c"
    "\<not> isResetting ?c" "chunks ?c = ys" "handled ?c = handled s"
    unfolding c using b by simp_all
  ultimately show ?thesis
    using stop_sequence [OF wc, of ?n tr zs] by simp
qed

text \<open>
  C2. The claim has the discard flag cleared once, by the stale \<^verbatim>\<open>stop\<close> event of the
  discarded recorder. The second restart finds no recorder to stop and sets the flag
  all the same: no stale event follows, the flag stays set while the new recorder
  delivers its fragments, which are all dropped, and it is cleared by the \<^verbatim>\<open>stop\<close> event
  of the new recorder itself. The artifact of the new recording is empty.
\<close>

theorem fresh_recording_lost_after_second_restart:
  "isResetting (run (take 5 restartTwice) openModal) = False
   \<and> isResetting (run (take 12 restartTwice) openModal) = True
   \<and> chunks (run (take 12 restartTwice) openModal) = []
   \<and> isResetting (run restartTwice openModal) = False
   \<and> handled (run restartTwice openModal) = [(Some \<lparr>parts = [], btype = ''audio/wav''\<rparr>, True)]"
  by code_simp

section \<open>What is recorded and what is saved\<close>

text \<open>Every blob handed to \<open>handleAudioRecording\<close> is of type \<^verbatim>\<open>audio/wav\<close>.\<close>

lemma wavHandled_settle:
  "wavHandled (handled s) \<Longrightarrow> (\<forall>b. v = Resolved (Some b) \<longrightarrow> btype b = ''audio/wav'')
     \<Longrightarrow> wavHandled (handled (settle p v s))"
  unfolding wavHandled_def settle_def
  by (auto split: pstate.splits option.splits)

lemma wavHandled_onStop: "wavHandled (handled s) \<Longrightarrow> wavHandled (handled (onStop s))"
  by (auto simp: onStop_def Let_def intro: wavHandled_settle split: option.splits)

lemma wavHandled_onStops: "wavHandled (handled s) \<Longrightarrow> wavHandled (handled ((onStop ^^ n) s))"
  by (induction n) (auto intro: wavHandled_onStop)

lemma handled_setDevice: "handled (setDevice d f s) = handled s"
  by (simp add: setDevice_def)

lemma handled_stopDevice: "handled (stopDevice d s) = handled s"
  by (simp add: stopDevice_def handled_setDevice)

lemma wavHandled_stopRecording: "wavHandled (handled s) \<Longrightarrow> wavHandled (handled (stopRecording t s))"
proof -
  assume a: "wavHandled (handled s)"
  let ?s1 = "s\<lparr>promises := promises s @ [\<lparr>pstate = Pending, awaiter = Some t\<rparr>],
                 resolve := Some (length (promises s))\<rparr>"
  from a have b: "wavHandled (handled ?s1)" by simp
  show ?thesis
  proof (cases "mediaRecorder s")
    case None
    then show ?thesis using wavHandled_settle [OF b, of "Resolved None" "length (promises s)"]
      by (simp add: stopRecording_def Let_def)
  next
    case (Some d)
    then show ?thesis using b
      by (simp add: stopRecording_def Let_def handled_setDevice handled_stopDevice)
  qed
qed

lemma wavHandled_step: "wavHandled (handled s) \<Longrightarrow> wavHandled (handled (step e s))"
proof (cases e)
  case (Stopped d)
  assume "wavHandled (handled s)"
  then have "wavHandled (handled (setDevice d (\<lambda>m. m\<lparr>stopPending := False\<rparr>) s))"
    by (simp add: handled_setDevice)
  from wavHandled_onStops [OF this] \<open>wavHandled (handled s)\<close> show ?thesis
    by (simp add: step_def Stopped)
next
  case (MediaFailed err)
  assume "wavHandled (handled s)"
  then show ?thesis
    using wavHandled_settle [of "s\<lparr>pendingMedia := pendingMedia s - 1\<rparr>" "Rejected err"]
    by (simp add: step_def MediaFailed mediaFailed_def split: option.splits)
qed (auto simp: step_def gotMedia_def onDataAvailable_def pauseRecording_def
       resumeOrStartRecording_def startRecording_def hardReset_def tick_def Let_def
       handled_setDevice handled_stopDevice
       intro: wavHandled_stopRecording split: option.splits)

lemma wavHandled_run: "wavHandled (handled s) \<Longrightarrow> wavHandled (handled (run evs s))"
  by (induction evs arbitrary: s) (auto intro: wavHandled_step)

lemma wavHandled_openModal: "wavHandled (handled openModal)"
  by (simp add: wavHandled_def openModal_def)

text \<open>
  What \<open>handleAudioRecording\<close> saves, and the content type its run declares.
\<close>

lemma saveFile_path:
  "saveFile np v b name path = Inr (v2, f) \<Longrightarrow>
     f = (if trim path = [] then name else np (trim path @ ''/'' @ name))"
  unfolding saveFile_def Let_def by (auto split: sum.splits)

lemma saveFile_tested:
  "saveFile np (vault pl) b (recordingName d count) (recordingFilePath (settings pl)) = Inr (v2, f) \<Longrightarrow>
     f = testedRecordingPath np pl d count"
  by (auto simp: testedRecordingPath_def Let_def dest: saveFile_path)

lemma pipeline_mp3:
  "getMimeType f = ''audio/mp3'' \<Longrightarrow> pipeline np (mp3Remote r) f pl = pipeline np r f pl"
proof -
  assume m: "getMimeType f = ''audio/mp3''"
  have f: "uploadUrl (mp3Remote r) = uploadUrl r" "fileUri (mp3Remote r) = fileUri r"
    by (simp_all add: mp3Remote_def)
  have u: "upload (mp3Remote r) = upload r" unfolding upload_def f ..
  have c: "clock (mp3Remote r) = clock r" by (simp add: mp3Remote_def)
  have g: "generate (mp3Remote r) x y (getMimeType f) = generate r x y (getMimeType f)" for x y
    by (simp add: mp3Remote_def m)
  show ?thesis unfolding pipeline_def u c g ..
qed

lemma transcribeRecording_mp3:
  "getMimeType f = ''audio/mp3'' \<Longrightarrow> transcribeRecording np (mp3Remote r) f pl = transcribeRecording np r f pl"
  unfolding transcribeRecording_def by (simp only: pipeline_mp3)

lemma handleAudioRecording_mp3:
  assumes "\<forall>count. recordingCount np pl d = Some count \<longrightarrow>
             basename (testedRecordingPath np pl d count) = recordingName d count"
  shows "handleAudioRecording np (mp3Remote r) d a tr keep incl pl
       = handleAudioRecording np r d a tr keep incl pl"
proof (cases a)
  case None
  then show ?thesis by (simp add: handleAudioRecording_def)
next
  case (Some b)
  show ?thesis
  proof (cases "recordingCount np pl d")
    case None
    with Some show ?thesis by (simp add: handleAudioRecording_def)
  next
    case c: (Some count)
    show ?thesis
    proof (cases "saveFile np (vault pl) b (recordingName d count) (recordingFilePath (settings pl))")
      case (Inl e)
      with Some c show ?thesis by (simp add: handleAudioRecording_def)
    next
      case (Inr vf)
      obtain v f where vf: "vf = (v, f)" by (cases vf)
      from saveFile_tested [OF Inr [unfolded vf]] assms c
      have "basename f = recordingName d count" by simp
      then have "getMimeType f = ''audio/mp3''" by (rule mime_mp3)
      with Some c Inr vf show ?thesis
        by (simp add: handleAudioRecording_def Let_def transcribeRecording_mp3)
    qed
  qed
qed

lemma handleAudioRecording_saves:
  assumes "recordingCount np pl d = Some count"
    and "handleAudioRecording np r d (Some b) False keep incl pl = Some pl'"
  shows "pl' = failed pl
       \<or> (getAbstractFileByPath (vault pl) (testedRecordingPath np pl d count) = None
          \<and> readBinary (vault pl') (testedRecordingPath np pl d count) = Some (concat (parts b)))"
proof (cases "saveFile np (vault pl) b (recordingName d count) (recordingFilePath (settings pl))")
  case (Inl e)
  with assms show ?thesis by (simp add: handleAudioRecording_def)
next
  case (Inr vf)
  obtain v f where vf: "vf = (v, f)" by (cases vf)
  note s = Inr [unfolded vf]
  from saveFile_tested [OF s] have f: "f = testedRecordingPath np pl d count" .
  from firstFree_Some [OF assms(1) [unfolded recordingCount_def]]
  have free: "getAbstractFileByPath (vault pl) (testedRecordingPath np pl d count) = None" by simp
  from assms s have "vault pl' = v"
    by (auto simp: handleAudioRecording_def Let_def saveSettings_def insertLink_def
        split: option.splits if_splits)
  with saveFile_stores [OF s] f free show ?thesis by simp
qed

lemma handleAudioRecording_returns:
  "recordingCount np pl d = Some count \<Longrightarrow>
     \<exists>pl'. handleAudioRecording np r d a False keep incl pl = Some pl'"
  by (auto simp: handleAudioRecording_def Let_def split: option.splits sum.splits)

lemma handleAudioRecording_save_failed:
  "recordingCount np pl d = Some count \<Longrightarrow>
     saveFile np (vault pl) b (recordingName d count) (recordingFilePath (settings pl)) = Inl e \<Longrightarrow>
     handleAudioRecording np r d (Some b) tr keep incl pl = Some (failed pl)"
  by (simp add: handleAudioRecording_def)

lemma handleAudioRecording_save_vault:
  "recordingCount np pl d = Some count \<Longrightarrow>
     saveFile np (vault pl) b (recordingName d count) (recordingFilePath (settings pl)) = Inr (v, f) \<Longrightarrow>
     map_option vault (handleAudioRecording np r d (Some b) False keep incl pl) = Some v"
  by (auto simp: handleAudioRecording_def Let_def saveSettings_def insertLink_def
      split: option.splits)

text \<open>
  C10. Every artifact that a session resolves a promise with, and every blob it hands to
  \<open>handleAudioRecording\<close>, is of type \<^verbatim>\<open>audio/wav\<close>. The file name \<open>handleAudioRecording\<close>
  chooses is \<^verbatim>\<open>recording-<date>-<bucket>.mp3\<close>, with \<^verbatim>\<open>-<count>\<close> before the extension from
  the second count on; the loop that chooses the count returns whenever distinct counts
  are tested at distinct paths, the path tested at the chosen count is free and the paths
  of all smaller counts are taken. \<open>handleAudioRecording\<close> hands \<open>saveFile\<close> that name and
  the recording folder: when \<open>saveFile\<close> fails it ends with the failure notice, and
  otherwise (without transcription) it returns with the vault that \<open>saveFile\<close> left, in
  which the tested path, free before, holds the bytes of the blob. A file of that name
  gets the content type \<^verbatim>\<open>audio/mp3\<close> from \<open>getMimeType\<close>; and when the host's path
  normalisation keeps the name, \<^verbatim>\<open>audio/mp3\<close> is what a run of \<open>handleAudioRecording\<close>
  declares to the remote service: the run is the same with a service that is told
  \<^verbatim>\<open>audio/mp3\<close> whatever it is sent.
\<close>

theorem recordings_are_wav_blobs_saved_as_mp3:
  "(\<forall>p\<in>set (promises (run evs openModal)). \<forall>b. pstate p = Resolved (Some b) \<longrightarrow> btype b = ''audio/wav'')
   \<and> (\<forall>h\<in>set (handled (run evs openModal)). \<forall>b. fst h = Some b \<longrightarrow> btype b = ''audio/wav'')
   \<and> (inj_on (testedRecordingPath np pl d) {1..} \<longrightarrow> (\<exists>count. recordingCount np pl d = Some count))
   \<and> (\<forall>count. recordingCount np pl d = Some count \<longrightarrow>
          1 \<le> count
          \<and> recordingName d count =
              ''recording-'' @ isoDate d @ ''-'' @ period (hours d)
                @ (if count = 1 then [] else ''-'' @ toStr count) @ ''.mp3''
          \<and> getAbstractFileByPath (vault pl) (testedRecordingPath np pl d count) = None
          \<and> (\<forall>j. 1 \<le> j \<and> j < count \<longrightarrow>
                 getAbstractFileByPath (vault pl) (testedRecordingPath np pl d j) \<noteq> None)
          \<and> (\<forall>file. basename file = recordingName d count \<longrightarrow> getMimeType file = ''audio/mp3'')
          \<and> (\<forall>e. saveFile np (vault pl) b (recordingName d count) (recordingFilePath (settings pl))
                  = Inl e \<longrightarrow>
                 handleAudioRecording np r d (Some b) tr keep incl pl = Some (failed pl))
          \<and> (\<forall>v file. saveFile np (vault pl) b (recordingName d count) (recordingFilePath (settings pl))
                  = Inr (v, file) \<longrightarrow>
                 file = testedRecordingPath np pl d count
                 \<and> map_option vault (handleAudioRecording np r d (Some b) False keep incl pl) = Some v)
          \<and> (\<exists>pl'. handleAudioRecording np r d (Some b) False keep incl pl = Some pl')
          \<and> (\<forall>pl'. handleAudioRecording np r d (Some b) False keep incl pl = Some pl' \<longrightarrow>
                 pl' = failed pl
                 \<or> readBinary (vault pl') (testedRecordingPath np pl d count) = Some (concat (parts b)))
          \<and> (basename (testedRecordingPath np pl d count) = recordingName d count \<longrightarrow>
                 handleAudioRecording np (mp3Remote r) d (Some b) tr keep incl pl
                   = handleAudioRecording np r d (Some b) tr keep incl pl))"
proof (intro conjI allI impI)
  show "\<forall>p\<in>set (promises (run evs openModal)). \<forall>b. pstate p = Resolved (Some b) \<longrightarrow> btype b = ''audio/wav''"
    using wavOnly_run [OF wavOnly_openModal, of evs] by (simp add: wavOnly_def)
next
  show "\<forall>h\<in>set (handled (run evs openModal)). \<forall>b. fst h = Some b \<longrightarrow> btype b = ''audio/wav''"
    using wavHandled_run [OF wavHandled_openModal, of evs] by (simp add: wavHandled_def)
next
  assume "inj_on (testedRecordingPath np pl d) {1..}"
  then show "\<exists>count. recordingCount np pl d = Some count"
    unfolding recordingCount_def by (rule unique_count_returns)
next
  fix count
  assume a: "recordingCount np pl d = Some count"
  note b = firstFree_Some [OF a [unfolded recordingCount_def]]
  from b show "1 \<le> count" by simp
  from b show "getAbstractFileByPath (vault pl) (testedRecordingPath np pl d count) = None" by simp
  from \<open>1 \<le> count\<close> show "recordingName d count =
              ''recording-'' @ isoDate d @ ''-'' @ period (hours d)
                @ (if count = 1 then [] else ''-'' @ toStr count) @ ''.mp3''"
    by (auto simp: recordingName_def suffix_def)
  from a show "\<exists>pl'. handleAudioRecording np r d (Some b) False keep incl pl = Some pl'"
    by (rule handleAudioRecording_returns)
  {
    fix e
    assume "saveFile np (vault pl) b (recordingName d count) (recordingFilePath (settings pl)) = Inl e"
    with a show "handleAudioRecording np r d (Some b) tr keep incl pl = Some (failed pl)"
      by (rule handleAudioRecording_save_failed)
  }
  {
    fix v f
    assume s: "saveFile np (vault pl) b (recordingName d count) (recordingFilePath (settings pl))
                 = Inr (v, f)"
    then show "f = testedRecordingPath np pl d count" by (rule saveFile_tested)
    from a s show "map_option vault (handleAudioRecording np r d (Some b) False keep incl pl) = Some v"
      by (rule handleAudioRecording_save_vault)
  }
  {
    fix j
    assume "1 \<le> j \<and> j < count"
    with b show "getAbstractFileByPath (vault pl) (testedRecordingPath np pl d j) \<noteq> None" by blast
  }
  {
    fix pl'
    assume "handleAudioRecording np r d (Some b) False keep incl pl = Some pl'"
    from handleAudioRecording_saves [OF a this]
    show "pl' = failed pl
          \<or> readBinary (vault pl') (testedRecordingPath np pl d count) = Some (concat (parts b))"
      by blast
  }
  {
    assume "basename (testedRecordingPath np pl d count) = recordingName d count"
    with a have "\<forall>c. recordingCount np pl d = Some c \<longrightarrow>
             basename (testedRecordingPath np pl d c) = recordingName d c" by simp
    then show "handleAudioRecording np (mp3Remote r) d (Some b) tr keep incl pl
                   = handleAudioRecording np r d (Some b) tr keep incl pl"
      by (rule handleAudioRecording_mp3)
  }
next
  fix count f
  assume "basename f = recordingName d count"
  then show "getMimeType f = ''audio/mp3''" by (rule mime_mp3)
qed

text \<open>
  The theorem at two inputs: a vault that holds this morning's first recording, where
  the second count is chosen, the recording is saved and the remote service is told
  \<^verbatim>\<open>audio/mp3\<close>; and a path normalisation that maps every path to one name, where the
  folder that \<open>saveFile\<close> creates takes the path of the file and the save fails.
\<close>

theorem recordings_are_wav_blobs_saved_as_mp3_witness:
  "handled (run plainSession openModal)
     = [(Some \<lparr>parts = [''a'', ''b''], btype = ''audio/wav''\<rparr>, True)]
   \<and> inj_on (testedRecordingPath (\<lambda>p. p) recPlugin morning) {1..}
   \<and> recordingCount (\<lambda>p. p) recPlugin morning = Some 2
   \<and> testedRecordingPath (\<lambda>p. p) recPlugin morning 2
       = ''Captain's Log/recordings/recording-2024-01-01-Morning-2.mp3''
   \<and> map_option vault
         (handleAudioRecording (\<lambda>p. p) echoRemote morning
            (Some \<lparr>parts = [''a'', ''b''], btype = ''audio/wav''\<rparr>) False True False recPlugin)
       = Some [(''Captain's Log/recordings'', TFolder),
               (''Captain's Log/recordings/recording-2024-01-01-Morning.mp3'', TFile ''old''),
               (''Captain's Log/recordings/recording-2024-01-01-Morning-2.mp3'', TFile ''ab'')]
   \<and> getMimeType ''Captain's Log/recordings/recording-2024-01-01-Morning-2.mp3'' = ''audio/mp3''
   \<and> map_option vault
         (handleAudioRecording (\<lambda>p. p) echoRemote morning
            (Some \<lparr>parts = [''a'', ''b''], btype = ''audio/wav''\<rparr>) True True False recPlugin)
       = Some [(''Captain's Log/recordings'', TFolder),
               (''Captain's Log/recordings/recording-2024-01-01-Morning.mp3'', TFile ''old''),
               (''Captain's Log/recordings/recording-2024-01-01-Morning-2.mp3'', TFile ''ab''),
               (''Captain's Log 2024-01-01-Morning.md'', TFile ''audio/mp3'')]
   \<and> recordingCount (\<lambda>p. ''x'') defaultPlugin morning = Some 1
   \<and> saveFile (\<lambda>p. ''x'') (vault defaultPlugin) \<lparr>parts = [''a'', ''b''], btype = ''audio/wav''\<rparr>
         (recordingName morning 1) (recordingFilePath (settings defaultPlugin))
       = Inl ''File already exists.''
   \<and> handleAudioRecording (\<lambda>p. ''x'') echoRemote morning
         (Some \<lparr>parts = [''a'', ''b''], btype = ''audio/wav''\<rparr>) True True False defaultPlugin
       = Some (failed defaultPlugin)"
proof -
  let ?b = "\<lparr>parts = [''a'', ''b''], btype = ''audio/wav''\<rparr>"
  let ?f = "''Captain's Log/recordings/recording-2024-01-01-Morning-2.mp3''"
  note t = recordings_are_wav_blobs_saved_as_mp3 [where evs = plainSession and np = "\<lambda>p. p"
      and pl = recPlugin and d = morning and r = echoRemote and b = ?b and keep = True
      and incl = False and tr = True]
  have h: "handled (run plainSession openModal) = [(Some ?b, True)]"
    by code_simp
  have i: "inj_on (testedRecordingPath (\<lambda>p. p) recPlugin morning) {1..}"
    by (rule testedRecordingPath_inj) simp
  with t obtain count where c: "recordingCount (\<lambda>p. p) recPlugin morning = Some count" by blast
  with t have c1: "1 \<le> count"
    and c2: "getAbstractFileByPath (vault recPlugin) (testedRecordingPath (\<lambda>p. p) recPlugin morning count) = None"
    and c3: "\<forall>j. 1 \<le> j \<and> j < count \<longrightarrow>
                 getAbstractFileByPath (vault recPlugin) (testedRecordingPath (\<lambda>p. p) recPlugin morning j) \<noteq> None"
    and c4: "\<forall>file. basename file = recordingName morning count \<longrightarrow> getMimeType file = ''audio/mp3''"
    and c6: "basename (testedRecordingPath (\<lambda>p. p) recPlugin morning count) = recordingName morning count \<longrightarrow>
                 handleAudioRecording (\<lambda>p. p) (mp3Remote echoRemote) morning (Some ?b) True True False recPlugin
                   = handleAudioRecording (\<lambda>p. p) echoRemote morning (Some ?b) True True False recPlugin"
    by blast+
  have n1: "getAbstractFileByPath (vault recPlugin) (testedRecordingPath (\<lambda>p. p) recPlugin morning 1) \<noteq> None"
    by code_simp
  have n2: "getAbstractFileByPath (vault recPlugin) (testedRecordingPath (\<lambda>p. p) recPlugin morning 2) = None"
    by code_simp
  from c1 c2 n1 have "count \<noteq> 1" by auto
  moreover from c3 [rule_format, of 2] n2 have "\<not> 2 < count" by auto
  ultimately have k: "count = 2" using c1 by simp
  have p: "testedRecordingPath (\<lambda>p. p) recPlugin morning 2 = ?f"
    by code_simp
  have r: "basename ?f = recordingName morning 2"
    by code_simp
  from c4 k r have m: "getMimeType ?f = ''audio/mp3''" by blast
  have s: "map_option vault
         (handleAudioRecording (\<lambda>p. p) echoRemote morning (Some ?b) False True False recPlugin)
       = Some [(''Captain's Log/recordings'', TFolder),
               (''Captain's Log/recordings/recording-2024-01-01-Morning.mp3'', TFile ''old''),
               (?f, TFile ''ab'')]"
    by code_simp
  have e: "map_option vault
         (handleAudioRecording (\<lambda>p. p) (mp3Remote echoRemote) morning (Some ?b) True True False recPlugin)
       = Some [(''Captain's Log/recordings'', TFolder),
               (''Captain's Log/recordings/recording-2024-01-01-Morning.mp3'', TFile ''old''),
               (?f, TFile ''ab''),
               (''Captain's Log 2024-01-01-Morning.md'', TFile ''audio/mp3'')]"
    by code_simp
  from c6 k p r have "handleAudioRecording (\<lambda>p. p) (mp3Remote echoRemote) morning (Some ?b) True True False recPlugin
                   = handleAudioRecording (\<lambda>p. p) echoRemote morning (Some ?b) True True False recPlugin"
    by simp
  with e have e': "map_option vault
         (handleAudioRecording (\<lambda>p. p) echoRemote morning (Some ?b) True True False recPlugin)
       = Some [(''Captain's Log/recordings'', TFolder),
               (''Captain's Log/recordings/recording-2024-01-01-Morning.mp3'', TFile ''old''),
               (?f, TFile ''ab''),
               (''Captain's Log 2024-01-01-Morning.md'', TFile ''audio/mp3'')]"
    by simp
  note f = recordings_are_wav_blobs_saved_as_mp3 [where np = "\<lambda>p. ''x''"
      and pl = defaultPlugin and d = morning and r = echoRemote and b = ?b and keep = True
      and incl = False and tr = True]
  have fc: "recordingCount (\<lambda>p. ''x'') defaultPlugin morning = Some 1" by code_simp
  have fs: "saveFile (\<lambda>p. ''x'') (vault defaultPlugin) ?b
         (recordingName morning 1) (recordingFilePath (settings defaultPlugin))
       = Inl ''File already exists.''" by code_simp
  from f fc fs have ff: "handleAudioRecording (\<lambda>p. ''x'') echoRemote morning (Some ?b) True True False
      defaultPlugin = Some (failed defaultPlugin)"
    by blast
  from h i c k p s m e' fc fs ff show ?thesis by simp
qed

end
